theory Spec2Isabelle
  imports Main "HOL-Library.Word"
begin

section \<open>Common declarations (ds.h)\<close>

text \<open>
  The status codes of \<^verbatim>\<open>enum ds_error\<close>, in the order of the header.
\<close>

datatype ds_error = DS_OK | DS_ERR_OOM | DS_ERR_INVALID | DS_ERR_NOTFOUND | DS_ERR_NULLARG

text \<open>
  Nodes live in a store addressed by natural numbers, one store per node type; a C
  pointer to a node is an \<open>addr option\<close> with \<open>None\<close> for \<^verbatim>\<open>NULL\<close>. A
  container handle (\<^verbatim>\<open>ds_list_t *\<close> and the like) is the container structure in an
  option, \<open>None\<close> for the null handle; an operation takes the store and the handle and
  returns the store and the structure as it has left them. A payload pointer
  (\<^verbatim>\<open>void *data\<close>) is an \<open>'a option\<close>. A comparator
  (\<^verbatim>\<open>int (*cmp)(const void *, const void *)\<close>) is a function on the non-null
  payloads, wrapped in an option whose \<open>None\<close> is the null function pointer.
  \<^verbatim>\<open>size_t\<close> is taken to be 64 bits wide; \<open>+\<close> and \<open>-\<close> on it wrap.

  An operation that reads through node pointers returns an \<open>option\<close>: \<open>None\<close>
  stands for a run that does not return normally, that is a loop that walks a cyclic
  chain for ever or a read through a pointer to no live node (undefined behaviour in C).
  A comparator dereferences both its arguments (as \<^verbatim>\<open>cmp_int\<close> of main.c does), so
  comparing against a node whose payload is \<^verbatim>\<open>NULL\<close> counts as such a read.

  \<^verbatim>\<open>ds_alloc\<close> is \<^verbatim>\<open>malloc\<close>: its outcome is the argument \<open>new\<close> of every
  operation that allocates a node, \<open>None\<close> when the allocation fails and \<open>Some a\<close>
  when it returns the block \<open>a\<close>. \<^verbatim>\<open>ds_free\<close> removes the block from the store.
  The destructor callback \<^verbatim>\<open>void (*free_data)(void *)\<close> acts on the caller's world
  \<open>'w\<close>; it is a function \<open>'a \<Rightarrow> 'w \<Rightarrow> 'w\<close> in an option.
\<close>

type_synonym addr = nat
type_synonym size_t = "64 word"
type_synonym 'a comparator = "'a \<Rightarrow> 'a \<Rightarrow> int"
type_synonym ('a, 'w) destructor = "'a \<Rightarrow> 'w \<Rightarrow> 'w"

text \<open>
  The comparator of main.c: \<^verbatim>\<open>return (*(int*)a - *(int*)b);\<close> on 32-bit ints. Where
  the subtraction overflows C leaves the result undefined; the model wraps around.
\<close>

definition cmp_int :: "32 word \<Rightarrow> 32 word \<Rightarrow> int" where
  "cmp_int a b = sint (a - b)"

text \<open>
  The call \<^verbatim>\<open>if (free_data != NULL && p != NULL) free_data(p);\<close> of the four
  teardown functions.
\<close>

definition call_free_data :: "('a, 'w) destructor option \<Rightarrow> 'a option \<Rightarrow> 'w \<Rightarrow> 'w" where
  "call_free_data free_data p w =
     (case free_data of
        None \<Rightarrow> w
      | Some f \<Rightarrow> (case p of None \<Rightarrow> w | Some d \<Rightarrow> f d w))"


text \<open>
  Formatted output. A \<^verbatim>\<open>FILE *\<close> is \<^verbatim>\<open>stdout\<close> or another stream; a visualize
  function returns the stream it has written to and the characters written. \<open>fmt_zu\<close>
  and \<open>fmt_d\<close> are the conversions \<^verbatim>\<open>%zu\<close> and \<^verbatim>\<open>%d\<close> of \<^verbatim>\<open>fprintf\<close>. The
  visualize functions read a payload as \<^verbatim>\<open>*(int*)data\<close>: the argument \<open>as_int\<close> is
  that read. Their line counter is an \<^verbatim>\<open>int\<close>; it is modelled unbounded, a chain of
  \<open>2^31\<close> nodes being out of reach.
\<close>

datatype stream = Stdout | Stream nat

definition newline :: char where
  "newline = CHR 0x0A"

fun dec_nat :: "nat \<Rightarrow> string" where
  "dec_nat n =
     (if n < 10 then [char_of (48 + n)]
      else dec_nat (n div 10) @ [char_of (48 + n mod 10)])"

declare dec_nat.simps [simp del]

definition fmt_zu :: "size_t \<Rightarrow> string" where
  "fmt_zu n = dec_nat (unat n)"

definition fmt_d :: "int \<Rightarrow> string" where
  "fmt_d i = (if i < 0 then CHR ''-'' # dec_nat (nat (- i)) else dec_nat (nat i))"

definition fmt_data :: "('a \<Rightarrow> 32 word) \<Rightarrow> 'a option \<Rightarrow> string" where
  \<comment> \<open>\<^verbatim>\<open>if (data != NULL) fprintf(out, "%d", *(int*)data); else fprintf(out, "NULL");\<close>\<close>
  "fmt_data as_int data = (case data of None \<Rightarrow> ''NULL'' | Some d \<Rightarrow> fmt_d (sint (as_int d)))"

definition default_stdout :: "stream option \<Rightarrow> stream" where
  \<comment> \<open>\<^verbatim>\<open>if (out == NULL) out = stdout;\<close>\<close>
  "default_stdout out = (case out of None \<Rightarrow> Stdout | Some f \<Rightarrow> f)"


section \<open>Linked list (list.c)\<close>

record 'a ds_list_node =
  ln_data :: "'a option"
  ln_next :: "addr option"

record ds_list =
  l_head :: "addr option"
  l_tail :: "addr option"
  l_size :: size_t

type_synonym 'a list_store = "addr \<rightharpoonup> 'a ds_list_node"

definition ds_list_create :: "bool \<Rightarrow> ds_list option" where
  \<comment> \<open>the argument tells whether the allocation of the list structure succeeds\<close>
  "ds_list_create ok =
     (if ok then Some \<lparr>l_head = None, l_tail = None, l_size = 0\<rparr> else None)"

partial_function (option) list_free_loop ::
  "'a list_store \<Rightarrow> ('a, 'w) destructor option \<Rightarrow> addr option \<Rightarrow> 'w
     \<Rightarrow> ('a list_store \<times> 'w) option"
where
  "list_free_loop h free_data current w =
     (case current of
        None \<Rightarrow> Some (h, w)
      | Some c \<Rightarrow>
          (case h c of
             None \<Rightarrow> None
           | Some n \<Rightarrow>
               list_free_loop (h(c := None)) free_data (ln_next n)
                 (call_free_data free_data (ln_data n) w)))"

declare list_free_loop.simps [code]

definition ds_list_free ::
  "'a list_store \<Rightarrow> ds_list option \<Rightarrow> ('a, 'w) destructor option \<Rightarrow> 'w
     \<Rightarrow> (ds_error \<times> 'a list_store \<times> 'w) option"
where
  "ds_list_free h L free_data w =
     (case L of
        None \<Rightarrow> Some (DS_ERR_NULLARG, h, w)
      | Some l \<Rightarrow>
          (case list_free_loop h free_data (l_head l) w of
             None \<Rightarrow> None
           | Some (h', w') \<Rightarrow> Some (DS_OK, h', w')))"

definition ds_list_push_front ::
  "addr option \<Rightarrow> 'a list_store \<Rightarrow> ds_list option \<Rightarrow> 'a option
     \<Rightarrow> ds_error \<times> 'a list_store \<times> ds_list option"
where
  "ds_list_push_front new h L data =
     (case L of
        None \<Rightarrow> (DS_ERR_NULLARG, h, L)
      | Some l \<Rightarrow>
     (case data of
        None \<Rightarrow> (DS_ERR_NULLARG, h, L)
      | Some d \<Rightarrow>
     (case new of
        None \<Rightarrow> (DS_ERR_OOM, h, L)
      | Some a \<Rightarrow>
          (DS_OK, h(a \<mapsto> \<lparr>ln_data = Some d, ln_next = l_head l\<rparr>),
           Some (l\<lparr>l_head := Some a,
                    l_tail := (if l_tail l = None then Some a else l_tail l),
                    l_size := l_size l + 1\<rparr>)))))"

definition ds_list_push_back ::
  "addr option \<Rightarrow> 'a list_store \<Rightarrow> ds_list option \<Rightarrow> 'a option
     \<Rightarrow> (ds_error \<times> 'a list_store \<times> ds_list option) option"
where
  "ds_list_push_back new h L data =
     (case L of
        None \<Rightarrow> Some (DS_ERR_NULLARG, h, L)
      | Some l \<Rightarrow>
     (case data of
        None \<Rightarrow> Some (DS_ERR_NULLARG, h, L)
      | Some d \<Rightarrow>
     (case new of
        None \<Rightarrow> Some (DS_ERR_OOM, h, L)
      | Some a \<Rightarrow>
          (let h1 = h(a \<mapsto> \<lparr>ln_data = Some d, ln_next = None\<rparr>) in
           case l_tail l of
             None \<Rightarrow>
               Some (DS_OK, h1,
                     Some (l\<lparr>l_head := Some a, l_tail := Some a, l_size := l_size l + 1\<rparr>))
           | Some lt \<Rightarrow>
               (case h1 lt of
                  None \<Rightarrow> None
                | Some tn \<Rightarrow>
                    Some (DS_OK, h1(lt \<mapsto> tn\<lparr>ln_next := Some a\<rparr>),
                          Some (l\<lparr>l_tail := Some a, l_size := l_size l + 1\<rparr>)))))))"

definition ds_list_pop_front ::
  "'a list_store \<Rightarrow> ds_list option \<Rightarrow> ('a option \<times> 'a list_store \<times> ds_list option) option"
where
  "ds_list_pop_front h L =
     (case L of
        None \<Rightarrow> Some (None, h, L)
      | Some l \<Rightarrow>
     (case l_head l of
        None \<Rightarrow> Some (None, h, L)
      | Some old_head \<Rightarrow>
          (case h old_head of
             None \<Rightarrow> None
           | Some n \<Rightarrow>
               Some (ln_data n, h(old_head := None),
                     Some (l\<lparr>l_head := ln_next n,
                              l_tail := (if ln_next n = None then None else l_tail l),
                              l_size := l_size l - 1\<rparr>)))))"

partial_function (option) list_remove_loop ::
  "'a list_store \<Rightarrow> ds_list \<Rightarrow> 'a \<Rightarrow> 'a comparator \<Rightarrow> addr option \<Rightarrow> addr option
     \<Rightarrow> (ds_error \<times> 'a list_store \<times> ds_list option) option"
where
  "list_remove_loop h l data cmp current previous =
     (case current of
        None \<Rightarrow> Some (DS_ERR_NOTFOUND, h, Some l)
      | Some c \<Rightarrow>
          (case h c of
             None \<Rightarrow> None
           | Some n \<Rightarrow>
               (case ln_data n of
                  None \<Rightarrow> None
                | Some y \<Rightarrow>
                    if cmp y data = 0 then
                      (case previous of
                         None \<Rightarrow>
                           Some (DS_OK, h(c := None),
                                 Some (l\<lparr>l_head := ln_next n,
                                          l_tail := (if ln_next n = None then None
                                                     else l_tail l),
                                          l_size := l_size l - 1\<rparr>))
                       | Some p \<Rightarrow>
                           (case h p of
                              None \<Rightarrow> None
                            | Some pn \<Rightarrow>
                                Some (DS_OK, (h(p \<mapsto> pn\<lparr>ln_next := ln_next n\<rparr>))(c := None),
                                      Some (l\<lparr>l_tail := (if Some c = l_tail l then Some p
                                                          else l_tail l),
                                               l_size := l_size l - 1\<rparr>))))
                    else list_remove_loop h l data cmp (ln_next n) (Some c))))"

declare list_remove_loop.simps [code]

definition ds_list_remove ::
  "'a list_store \<Rightarrow> ds_list option \<Rightarrow> 'a option \<Rightarrow> 'a comparator option
     \<Rightarrow> (ds_error \<times> 'a list_store \<times> ds_list option) option"
where
  "ds_list_remove h L data cmp =
     (case L of
        None \<Rightarrow> Some (DS_ERR_NULLARG, h, L)
      | Some l \<Rightarrow>
     (case data of
        None \<Rightarrow> Some (DS_ERR_NULLARG, h, L)
      | Some d \<Rightarrow>
     (case cmp of
        None \<Rightarrow> Some (DS_ERR_NULLARG, h, L)
      | Some f \<Rightarrow> list_remove_loop h l d f (l_head l) None)))"

partial_function (option) list_find_loop ::
  "'a list_store \<Rightarrow> 'a \<Rightarrow> 'a comparator \<Rightarrow> addr option \<Rightarrow> 'a option option"
where
  "list_find_loop h target cmp current =
     (case current of
        None \<Rightarrow> Some None
      | Some c \<Rightarrow>
          (case h c of
             None \<Rightarrow> None
           | Some n \<Rightarrow>
               (case ln_data n of
                  None \<Rightarrow> None
                | Some y \<Rightarrow>
                    if cmp y target = 0 then Some (ln_data n)
                    else list_find_loop h target cmp (ln_next n))))"

declare list_find_loop.simps [code]

definition ds_list_find ::
  "'a list_store \<Rightarrow> ds_list option \<Rightarrow> 'a option \<Rightarrow> 'a comparator option \<Rightarrow> 'a option option"
where
  "ds_list_find h L target cmp =
     (case L of
        None \<Rightarrow> Some None
      | Some l \<Rightarrow>
     (case target of
        None \<Rightarrow> Some None
      | Some x \<Rightarrow>
     (case cmp of
        None \<Rightarrow> Some None
      | Some f \<Rightarrow> list_find_loop h x f (l_head l))))"

definition ds_list_size :: "ds_list option \<Rightarrow> size_t" where
  "ds_list_size L = (case L of None \<Rightarrow> 0 | Some l \<Rightarrow> l_size l)"


partial_function (option) list_visualize_loop ::
  "('a \<Rightarrow> 32 word) \<Rightarrow> 'a list_store \<Rightarrow> ds_list \<Rightarrow> addr option \<Rightarrow> int \<Rightarrow> string
     \<Rightarrow> string option"
where
  "list_visualize_loop as_int h l current count written =
     (case current of
        None \<Rightarrow> Some written
      | Some c \<Rightarrow>
          (case h c of
             None \<Rightarrow> None
           | Some n \<Rightarrow>
               list_visualize_loop as_int h l (ln_next n) (count + 1)
                 (written @ ''  ['' @ fmt_d count @ '']: '' @ fmt_data as_int (ln_data n)
                    @ (if current = l_head l then '' [HEAD]'' else [])
                    @ (if current = l_tail l then '' [TAIL]'' else [])
                    @ [newline])))"

declare list_visualize_loop.simps [code]

definition ds_list_visualize ::
  "('a \<Rightarrow> 32 word) \<Rightarrow> 'a list_store \<Rightarrow> ds_list option \<Rightarrow> stream option
     \<Rightarrow> (stream \<times> string) option"
where
  "ds_list_visualize as_int h L out =
     (case L of
        None \<Rightarrow> Some (default_stdout out, ''List: NULL'' @ [newline])
      | Some l \<Rightarrow>
          if l_head l = None then
            Some (default_stdout out,
                  ''List: [empty] (size: '' @ fmt_zu (l_size l) @ '')'' @ [newline])
          else
            (case list_visualize_loop as_int h l (l_head l) 0
                    (''List: (size: '' @ fmt_zu (l_size l) @ '')'' @ [newline]) of
               None \<Rightarrow> None
             | Some written \<Rightarrow> Some (default_stdout out, written @ [newline])))"


section \<open>Stack (stack.c)\<close>

record 'a ds_stack_node =
  sn_data :: "'a option"
  sn_next :: "addr option"

record ds_stack =
  s_top :: "addr option"
  s_size :: size_t

type_synonym 'a stack_store = "addr \<rightharpoonup> 'a ds_stack_node"

definition ds_stack_create :: "bool \<Rightarrow> ds_stack option" where
  "ds_stack_create ok = (if ok then Some \<lparr>s_top = None, s_size = 0\<rparr> else None)"

partial_function (option) stack_free_loop ::
  "'a stack_store \<Rightarrow> ('a, 'w) destructor option \<Rightarrow> addr option \<Rightarrow> 'w
     \<Rightarrow> ('a stack_store \<times> 'w) option"
where
  "stack_free_loop h free_data current w =
     (case current of
        None \<Rightarrow> Some (h, w)
      | Some c \<Rightarrow>
          (case h c of
             None \<Rightarrow> None
           | Some n \<Rightarrow>
               stack_free_loop (h(c := None)) free_data (sn_next n)
                 (call_free_data free_data (sn_data n) w)))"

declare stack_free_loop.simps [code]

definition ds_stack_free ::
  "'a stack_store \<Rightarrow> ds_stack option \<Rightarrow> ('a, 'w) destructor option \<Rightarrow> 'w
     \<Rightarrow> (ds_error \<times> 'a stack_store \<times> 'w) option"
where
  "ds_stack_free h S free_data w =
     (case S of
        None \<Rightarrow> Some (DS_ERR_NULLARG, h, w)
      | Some s \<Rightarrow>
          (case stack_free_loop h free_data (s_top s) w of
             None \<Rightarrow> None
           | Some (h', w') \<Rightarrow> Some (DS_OK, h', w')))"

definition ds_stack_push ::
  "addr option \<Rightarrow> 'a stack_store \<Rightarrow> ds_stack option \<Rightarrow> 'a option
     \<Rightarrow> ds_error \<times> 'a stack_store \<times> ds_stack option"
where
  "ds_stack_push new h S data =
     (case S of
        None \<Rightarrow> (DS_ERR_NULLARG, h, S)
      | Some s \<Rightarrow>
     (case data of
        None \<Rightarrow> (DS_ERR_NULLARG, h, S)
      | Some d \<Rightarrow>
     (case new of
        None \<Rightarrow> (DS_ERR_OOM, h, S)
      | Some a \<Rightarrow>
          (DS_OK, h(a \<mapsto> \<lparr>sn_data = Some d, sn_next = s_top s\<rparr>),
           Some (s\<lparr>s_top := Some a, s_size := s_size s + 1\<rparr>)))))"

definition ds_stack_pop ::
  "'a stack_store \<Rightarrow> ds_stack option
     \<Rightarrow> ('a option \<times> 'a stack_store \<times> ds_stack option) option"
where
  "ds_stack_pop h S =
     (case S of
        None \<Rightarrow> Some (None, h, S)
      | Some s \<Rightarrow>
     (case s_top s of
        None \<Rightarrow> Some (None, h, S)
      | Some old_top \<Rightarrow>
          (case h old_top of
             None \<Rightarrow> None
           | Some n \<Rightarrow>
               Some (sn_data n, h(old_top := None),
                     Some (s\<lparr>s_top := sn_next n, s_size := s_size s - 1\<rparr>)))))"

definition ds_stack_peek :: "'a stack_store \<Rightarrow> ds_stack option \<Rightarrow> 'a option option" where
  "ds_stack_peek h S =
     (case S of
        None \<Rightarrow> Some None
      | Some s \<Rightarrow>
     (case s_top s of
        None \<Rightarrow> Some None
      | Some tp \<Rightarrow> (case h tp of None \<Rightarrow> None | Some n \<Rightarrow> Some (sn_data n))))"

definition ds_stack_is_empty :: "ds_stack option \<Rightarrow> int" where
  "ds_stack_is_empty S =
     (case S of None \<Rightarrow> 1 | Some s \<Rightarrow> (if s_top s = None then 1 else 0))"

definition ds_stack_size :: "ds_stack option \<Rightarrow> size_t" where
  "ds_stack_size S = (case S of None \<Rightarrow> 0 | Some s \<Rightarrow> s_size s)"


partial_function (option) stack_visualize_loop ::
  "('a \<Rightarrow> 32 word) \<Rightarrow> 'a stack_store \<Rightarrow> addr option \<Rightarrow> int \<Rightarrow> string \<Rightarrow> string option"
where
  "stack_visualize_loop as_int h current count written =
     (case current of
        None \<Rightarrow> Some written
      | Some c \<Rightarrow>
          (case h c of
             None \<Rightarrow> None
           | Some n \<Rightarrow>
               stack_visualize_loop as_int h (sn_next n) (count + 1)
                 (written @ ''  ['' @ fmt_d count @ '']: '' @ fmt_data as_int (sn_data n)
                    @ (if count = 0 then '' [TOP]'' else [])
                    @ [newline])))"

declare stack_visualize_loop.simps [code]

definition ds_stack_visualize ::
  "('a \<Rightarrow> 32 word) \<Rightarrow> 'a stack_store \<Rightarrow> ds_stack option \<Rightarrow> stream option
     \<Rightarrow> (stream \<times> string) option"
where
  "ds_stack_visualize as_int h S out =
     (case S of
        None \<Rightarrow> Some (default_stdout out, ''Stack: NULL'' @ [newline])
      | Some s \<Rightarrow>
          if s_top s = None then
            Some (default_stdout out,
                  ''Stack: [empty] (size: '' @ fmt_zu (s_size s) @ '')'' @ [newline])
          else
            (case stack_visualize_loop as_int h (s_top s) 0
                    (''Stack: (size: '' @ fmt_zu (s_size s) @ '')'' @ [newline]) of
               None \<Rightarrow> None
             | Some written \<Rightarrow> Some (default_stdout out, written @ [newline])))"


section \<open>Queue (queue.c)\<close>

record 'a ds_queue_node =
  qn_data :: "'a option"
  qn_next :: "addr option"

record ds_queue =
  q_front :: "addr option"
  q_rear :: "addr option"
  q_size :: size_t

type_synonym 'a queue_store = "addr \<rightharpoonup> 'a ds_queue_node"

definition ds_queue_create :: "bool \<Rightarrow> ds_queue option" where
  "ds_queue_create ok =
     (if ok then Some \<lparr>q_front = None, q_rear = None, q_size = 0\<rparr> else None)"

partial_function (option) queue_free_loop ::
  "'a queue_store \<Rightarrow> ('a, 'w) destructor option \<Rightarrow> addr option \<Rightarrow> 'w
     \<Rightarrow> ('a queue_store \<times> 'w) option"
where
  "queue_free_loop h free_data current w =
     (case current of
        None \<Rightarrow> Some (h, w)
      | Some c \<Rightarrow>
          (case h c of
             None \<Rightarrow> None
           | Some n \<Rightarrow>
               queue_free_loop (h(c := None)) free_data (qn_next n)
                 (call_free_data free_data (qn_data n) w)))"

declare queue_free_loop.simps [code]

definition ds_queue_free ::
  "'a queue_store \<Rightarrow> ds_queue option \<Rightarrow> ('a, 'w) destructor option \<Rightarrow> 'w
     \<Rightarrow> (ds_error \<times> 'a queue_store \<times> 'w) option"
where
  "ds_queue_free h Q free_data w =
     (case Q of
        None \<Rightarrow> Some (DS_ERR_NULLARG, h, w)
      | Some q \<Rightarrow>
          (case queue_free_loop h free_data (q_front q) w of
             None \<Rightarrow> None
           | Some (h', w') \<Rightarrow> Some (DS_OK, h', w')))"

definition ds_queue_enqueue ::
  "addr option \<Rightarrow> 'a queue_store \<Rightarrow> ds_queue option \<Rightarrow> 'a option
     \<Rightarrow> (ds_error \<times> 'a queue_store \<times> ds_queue option) option"
where
  "ds_queue_enqueue new h Q data =
     (case Q of
        None \<Rightarrow> Some (DS_ERR_NULLARG, h, Q)
      | Some q \<Rightarrow>
     (case data of
        None \<Rightarrow> Some (DS_ERR_NULLARG, h, Q)
      | Some d \<Rightarrow>
     (case new of
        None \<Rightarrow> Some (DS_ERR_OOM, h, Q)
      | Some a \<Rightarrow>
          (let h1 = h(a \<mapsto> \<lparr>qn_data = Some d, qn_next = None\<rparr>) in
           case q_rear q of
             None \<Rightarrow>
               Some (DS_OK, h1,
                     Some (q\<lparr>q_front := Some a, q_rear := Some a, q_size := q_size q + 1\<rparr>))
           | Some rr \<Rightarrow>
               (case h1 rr of
                  None \<Rightarrow> None
                | Some rn \<Rightarrow>
                    Some (DS_OK, h1(rr \<mapsto> rn\<lparr>qn_next := Some a\<rparr>),
                          Some (q\<lparr>q_rear := Some a, q_size := q_size q + 1\<rparr>)))))))"

definition ds_queue_dequeue ::
  "'a queue_store \<Rightarrow> ds_queue option
     \<Rightarrow> ('a option \<times> 'a queue_store \<times> ds_queue option) option"
where
  "ds_queue_dequeue h Q =
     (case Q of
        None \<Rightarrow> Some (None, h, Q)
      | Some q \<Rightarrow>
     (case q_front q of
        None \<Rightarrow> Some (None, h, Q)
      | Some old_front \<Rightarrow>
          (case h old_front of
             None \<Rightarrow> None
           | Some n \<Rightarrow>
               Some (qn_data n, h(old_front := None),
                     Some (q\<lparr>q_front := qn_next n,
                              q_rear := (if qn_next n = None then None else q_rear q),
                              q_size := q_size q - 1\<rparr>)))))"

definition ds_queue_peek :: "'a queue_store \<Rightarrow> ds_queue option \<Rightarrow> 'a option option" where
  "ds_queue_peek h Q =
     (case Q of
        None \<Rightarrow> Some None
      | Some q \<Rightarrow>
     (case q_front q of
        None \<Rightarrow> Some None
      | Some f \<Rightarrow> (case h f of None \<Rightarrow> None | Some n \<Rightarrow> Some (qn_data n))))"

definition ds_queue_is_empty :: "ds_queue option \<Rightarrow> int" where
  "ds_queue_is_empty Q =
     (case Q of None \<Rightarrow> 1 | Some q \<Rightarrow> (if q_front q = None then 1 else 0))"

definition ds_queue_size :: "ds_queue option \<Rightarrow> size_t" where
  "ds_queue_size Q = (case Q of None \<Rightarrow> 0 | Some q \<Rightarrow> q_size q)"


partial_function (option) queue_visualize_loop ::
  "('a \<Rightarrow> 32 word) \<Rightarrow> 'a queue_store \<Rightarrow> ds_queue \<Rightarrow> addr option \<Rightarrow> int \<Rightarrow> string
     \<Rightarrow> string option"
where
  "queue_visualize_loop as_int h q current count written =
     (case current of
        None \<Rightarrow> Some written
      | Some c \<Rightarrow>
          (case h c of
             None \<Rightarrow> None
           | Some n \<Rightarrow>
               queue_visualize_loop as_int h q (qn_next n) (count + 1)
                 (written @ ''  ['' @ fmt_d count @ '']: '' @ fmt_data as_int (qn_data n)
                    @ (if count = 0 then '' [FRONT]'' else [])
                    @ (if current = q_rear q then '' [REAR]'' else [])
                    @ [newline])))"

declare queue_visualize_loop.simps [code]

definition ds_queue_visualize ::
  "('a \<Rightarrow> 32 word) \<Rightarrow> 'a queue_store \<Rightarrow> ds_queue option \<Rightarrow> stream option
     \<Rightarrow> (stream \<times> string) option"
where
  "ds_queue_visualize as_int h Q out =
     (case Q of
        None \<Rightarrow> Some (default_stdout out, ''Queue: NULL'' @ [newline])
      | Some q \<Rightarrow>
          if q_front q = None then
            Some (default_stdout out,
                  ''Queue: [empty] (size: '' @ fmt_zu (q_size q) @ '')'' @ [newline])
          else
            (case queue_visualize_loop as_int h q (q_front q) 0
                    (''Queue: (size: '' @ fmt_zu (q_size q) @ '')'' @ [newline]) of
               None \<Rightarrow> None
             | Some written \<Rightarrow> Some (default_stdout out, written @ [newline])))"


section \<open>Binary search tree (tree.c)\<close>

record 'a ds_tree_node =
  tn_data :: "'a option"
  tn_left :: "addr option"
  tn_right :: "addr option"

record ds_tree =
  t_root :: "addr option"
  t_size :: size_t

type_synonym 'a tree_store = "addr \<rightharpoonup> 'a ds_tree_node"

partial_function (option) count_nodes :: "'a tree_store \<Rightarrow> addr option \<Rightarrow> size_t option"
where
  "count_nodes h node =
     (case node of
        None \<Rightarrow> Some 0
      | Some a \<Rightarrow>
          (case h a of
             None \<Rightarrow> None
           | Some n \<Rightarrow>
               Option.bind (count_nodes h (tn_left n)) (\<lambda>cl.
               Option.bind (count_nodes h (tn_right n)) (\<lambda>cr.
               Some (1 + cl + cr)))))"

declare count_nodes.simps [code]

partial_function (option) free_subtree ::
  "'a tree_store \<Rightarrow> addr option \<Rightarrow> ('a, 'w) destructor option \<Rightarrow> 'w
     \<Rightarrow> ('a tree_store \<times> 'w) option"
where
  "free_subtree h node free_data w =
     (case node of
        None \<Rightarrow> Some (h, w)
      | Some a \<Rightarrow>
          (case h a of
             None \<Rightarrow> None
           | Some n \<Rightarrow>
               Option.bind (free_subtree h (tn_left n) free_data w) (\<lambda>r1.
               (case fst r1 a of
                  None \<Rightarrow> None
                | Some n1 \<Rightarrow>
                    Option.bind (free_subtree (fst r1) (tn_right n1) free_data (snd r1)) (\<lambda>r2.
                    (case fst r2 a of
                       None \<Rightarrow> None
                     | Some n2 \<Rightarrow>
                         Some ((fst r2)(a := None),
                               call_free_data free_data (tn_data n2) (snd r2))))))))"

declare free_subtree.simps [code]

definition ds_tree_create :: "bool \<Rightarrow> ds_tree option" where
  \<comment> \<open>the argument tells whether the allocation of the tree structure succeeds\<close>
  "ds_tree_create ok = (if ok then Some \<lparr>t_root = None, t_size = 0\<rparr> else None)"

definition ds_tree_free ::
  "'a tree_store \<Rightarrow> ds_tree option \<Rightarrow> ('a, 'w) destructor option \<Rightarrow> 'w
     \<Rightarrow> (ds_error \<times> 'a tree_store \<times> 'w) option"
where
  "ds_tree_free h T free_data w =
     (case T of
        None \<Rightarrow> Some (DS_ERR_NULLARG, h, w)
      | Some t \<Rightarrow>
          (case free_subtree h (t_root t) free_data w of
             None \<Rightarrow> None
           | Some (h', w') \<Rightarrow> Some (DS_OK, h', w')))"

text \<open>
  The descent of \<^verbatim>\<open>ds_tree_insert\<close>: \<^verbatim>\<open>while (current != NULL)\<close>. It is left
  either through the \<^verbatim>\<open>else\<close> branch (an equal key was met) or with
  \<^verbatim>\<open>current == NULL\<close> and the last node visited in \<^verbatim>\<open>parent\<close>.
\<close>

datatype insert_exit = Equal_Key | Empty_Slot "addr option"

partial_function (option) insert_loop ::
  "'a tree_store \<Rightarrow> 'a comparator \<Rightarrow> 'a \<Rightarrow> addr option \<Rightarrow> addr option \<Rightarrow> insert_exit option"
where
  "insert_loop h cmp d current parent =
     (case current of
        None \<Rightarrow> Some (Empty_Slot parent)
      | Some c \<Rightarrow>
          (case h c of
             None \<Rightarrow> None
           | Some n \<Rightarrow>
               (case tn_data n of
                  None \<Rightarrow> None
                | Some y \<Rightarrow>
                    (let comparison = cmp d y in
                     if comparison < 0 then insert_loop h cmp d (tn_left n) (Some c)
                     else if comparison > 0 then insert_loop h cmp d (tn_right n) (Some c)
                     else Some Equal_Key))))"

declare insert_loop.simps [code]

definition ds_tree_insert ::
  "addr option \<Rightarrow> 'a tree_store \<Rightarrow> ds_tree option \<Rightarrow> 'a option \<Rightarrow> 'a comparator option
     \<Rightarrow> (ds_error \<times> 'a tree_store \<times> ds_tree option) option"
where
  "ds_tree_insert new h T data cmp =
     (case T of
        None \<Rightarrow> Some (DS_ERR_NULLARG, h, T)
      | Some t \<Rightarrow>
     (case data of
        None \<Rightarrow> Some (DS_ERR_NULLARG, h, T)
      | Some d \<Rightarrow>
     (case cmp of
        None \<Rightarrow> Some (DS_ERR_NULLARG, h, T)
      | Some f \<Rightarrow>
     (case new of
        None \<Rightarrow> Some (DS_ERR_OOM, h, T)
      | Some a \<Rightarrow>
          (let h1 = h(a \<mapsto> \<lparr>tn_data = Some d, tn_left = None, tn_right = None\<rparr>) in
           case t_root t of
             None \<Rightarrow> Some (DS_OK, h1, Some (t\<lparr>t_root := Some a, t_size := t_size t + 1\<rparr>))
           | Some r \<Rightarrow>
               (case insert_loop h1 f d (Some r) None of
                  None \<Rightarrow> None
                | Some Equal_Key \<Rightarrow> Some (DS_OK, h1(a := None), T)
                | Some (Empty_Slot parent) \<Rightarrow>
                    (case parent of
                       None \<Rightarrow> None
                     | Some p \<Rightarrow>
                         (case h1 p of
                            None \<Rightarrow> None
                          | Some pn \<Rightarrow>
                              (case tn_data pn of
                                 None \<Rightarrow> None
                               | Some y \<Rightarrow>
                                   Some (DS_OK,
                                         (if f d y < 0 then h1(p \<mapsto> pn\<lparr>tn_left := Some a\<rparr>)
                                          else h1(p \<mapsto> pn\<lparr>tn_right := Some a\<rparr>)),
                                         Some (t\<lparr>t_size := t_size t + 1\<rparr>)))))))))))"

partial_function (option) find_loop ::
  "'a tree_store \<Rightarrow> 'a comparator \<Rightarrow> 'a \<Rightarrow> addr option \<Rightarrow> 'a option option"
where
  "find_loop h cmp target current =
     (case current of
        None \<Rightarrow> Some None
      | Some c \<Rightarrow>
          (case h c of
             None \<Rightarrow> None
           | Some n \<Rightarrow>
               (case tn_data n of
                  None \<Rightarrow> None
                | Some y \<Rightarrow>
                    (let comparison = cmp target y in
                     if comparison < 0 then find_loop h cmp target (tn_left n)
                     else if comparison > 0 then find_loop h cmp target (tn_right n)
                     else Some (tn_data n)))))"

declare find_loop.simps [code]

definition ds_tree_find ::
  "'a tree_store \<Rightarrow> ds_tree option \<Rightarrow> 'a option \<Rightarrow> 'a comparator option \<Rightarrow> 'a option option"
where
  "ds_tree_find h T target cmp =
     (case T of
        None \<Rightarrow> Some None
      | Some t \<Rightarrow>
     (case target of
        None \<Rightarrow> Some None
      | Some x \<Rightarrow>
     (case cmp of
        None \<Rightarrow> Some None
      | Some f \<Rightarrow> find_loop h f x (t_root t))))"

text \<open>
  The search loop of \<^verbatim>\<open>ds_tree_remove\<close>; it returns \<^verbatim>\<open>current\<close> and
  \<^verbatim>\<open>parent\<close> as they are when the loop is left.
\<close>

partial_function (option) remove_loop ::
  "'a tree_store \<Rightarrow> 'a comparator \<Rightarrow> 'a \<Rightarrow> addr option \<Rightarrow> addr option
     \<Rightarrow> (addr option \<times> addr option) option"
where
  "remove_loop h cmp target current parent =
     (case current of
        None \<Rightarrow> Some (None, parent)
      | Some c \<Rightarrow>
          (case h c of
             None \<Rightarrow> None
           | Some n \<Rightarrow>
               (case tn_data n of
                  None \<Rightarrow> None
                | Some y \<Rightarrow>
                    (let comparison = cmp target y in
                     if comparison < 0 then remove_loop h cmp target (tn_left n) (Some c)
                     else if comparison > 0 then remove_loop h cmp target (tn_right n) (Some c)
                     else Some (Some c, parent)))))"

declare remove_loop.simps [code]

text \<open>
  The walk to the in-order successor: \<^verbatim>\<open>while (successor->left != NULL)\<close>; it
  returns \<^verbatim>\<open>successor\<close> and \<^verbatim>\<open>successor_parent\<close>.
\<close>

partial_function (option) successor_loop ::
  "'a tree_store \<Rightarrow> addr \<Rightarrow> addr \<Rightarrow> (addr \<times> addr) option"
where
  "successor_loop h successor successor_parent =
     (case h successor of
        None \<Rightarrow> None
      | Some sn \<Rightarrow>
          (case tn_left sn of
             None \<Rightarrow> Some (successor, successor_parent)
           | Some l \<Rightarrow> successor_loop h l successor))"

declare successor_loop.simps [code]

text \<open>
  Cases 1 and 2 of \<^verbatim>\<open>ds_tree_remove\<close> end with the same three-way assignment, of
  \<^verbatim>\<open>NULL\<close> or of the only child: to the root when \<^verbatim>\<open>parent == NULL\<close>, else to
  the parent's left link when \<^verbatim>\<open>parent->left == current\<close>, else to its right link.
\<close>

definition set_parent_link ::
  "'a tree_store \<Rightarrow> addr option \<Rightarrow> addr option \<Rightarrow> addr \<Rightarrow> addr option
     \<Rightarrow> ('a tree_store \<times> addr option) option"
where
  "set_parent_link h root parent current child =
     (case parent of
        None \<Rightarrow> Some (h, child)
      | Some p \<Rightarrow>
          (case h p of
             None \<Rightarrow> None
           | Some pn \<Rightarrow>
               if tn_left pn = Some current then Some (h(p \<mapsto> pn\<lparr>tn_left := child\<rparr>), root)
               else Some (h(p \<mapsto> pn\<lparr>tn_right := child\<rparr>), root)))"

definition remove_two_children ::
  "'a tree_store \<Rightarrow> addr \<Rightarrow> 'a ds_tree_node \<Rightarrow> addr \<Rightarrow> 'a tree_store option"
where
  \<comment> \<open>case 3; \<open>n\<close> is the node at \<^verbatim>\<open>current\<close> and \<open>r\<close> is \<^verbatim>\<open>current->right\<close>\<close>
  "remove_two_children h current n r =
     (case successor_loop h r current of
        None \<Rightarrow> None
      | Some (successor, successor_parent) \<Rightarrow>
          (case h successor of
             None \<Rightarrow> None
           | Some sn \<Rightarrow>
               (let h1 = h(current \<mapsto> n\<lparr>tn_data := tn_data sn\<rparr>) in
                case h1 successor_parent of
                  None \<Rightarrow> None
                | Some spn \<Rightarrow>
                    (case h1 successor of
                       None \<Rightarrow> None
                     | Some sn1 \<Rightarrow>
                         (let h2 = (if tn_left spn = Some successor
                                    then h1(successor_parent \<mapsto> spn\<lparr>tn_left := tn_right sn1\<rparr>)
                                    else h1(successor_parent \<mapsto> spn\<lparr>tn_right := tn_right sn1\<rparr>))
                          in Some (h2(successor := None)))))))"

definition ds_tree_remove ::
  "'a tree_store \<Rightarrow> ds_tree option \<Rightarrow> 'a option \<Rightarrow> 'a comparator option
     \<Rightarrow> (ds_error \<times> 'a tree_store \<times> ds_tree option) option"
where
  "ds_tree_remove h T target cmp =
     (case T of
        None \<Rightarrow> Some (DS_ERR_NULLARG, h, T)
      | Some t \<Rightarrow>
     (case target of
        None \<Rightarrow> Some (DS_ERR_NULLARG, h, T)
      | Some x \<Rightarrow>
     (case cmp of
        None \<Rightarrow> Some (DS_ERR_NULLARG, h, T)
      | Some f \<Rightarrow>
     (case remove_loop h f x (t_root t) None of
        None \<Rightarrow> None
      | Some (None, parent) \<Rightarrow> Some (DS_ERR_NOTFOUND, h, T)
      | Some (Some c, parent) \<Rightarrow>
          (case h c of
             None \<Rightarrow> None
           | Some n \<Rightarrow>
               if tn_left n = None \<and> tn_right n = None then
                 (case set_parent_link h (t_root t) parent c None of
                    None \<Rightarrow> None
                  | Some (h', root) \<Rightarrow>
                      Some (DS_OK, h'(c := None),
                            Some (t\<lparr>t_root := root, t_size := t_size t - 1\<rparr>)))
               else if tn_left n = None \<or> tn_right n = None then
                 (let child = (if tn_left n \<noteq> None then tn_left n else tn_right n) in
                  case set_parent_link h (t_root t) parent c child of
                    None \<Rightarrow> None
                  | Some (h', root) \<Rightarrow>
                      Some (DS_OK, h'(c := None),
                            Some (t\<lparr>t_root := root, t_size := t_size t - 1\<rparr>)))
               else
                 (case tn_right n of
                    None \<Rightarrow> None
                  | Some r \<Rightarrow>
                      (case remove_two_children h c n r of
                         None \<Rightarrow> None
                       | Some h' \<Rightarrow> Some (DS_OK, h', Some (t\<lparr>t_size := t_size t - 1\<rparr>)))))))))"

definition ds_tree_size :: "ds_tree option \<Rightarrow> size_t" where
  "ds_tree_size T = (case T of None \<Rightarrow> 0 | Some t \<Rightarrow> t_size t)"

definition ds_tree_is_empty :: "ds_tree option \<Rightarrow> int" where
  "ds_tree_is_empty T = (case T of None \<Rightarrow> 1 | Some t \<Rightarrow> (if t_root t = None then 1 else 0))"


text \<open>
  \<^verbatim>\<open>print_subtree\<close> writes the right subtree, the node (indented by two blanks per
  level) and the left subtree; it returns the characters written.
\<close>

partial_function (option) print_subtree ::
  "('a \<Rightarrow> 32 word) \<Rightarrow> 'a tree_store \<Rightarrow> addr option \<Rightarrow> int \<Rightarrow> string option"
where
  "print_subtree as_int h node depth =
     (case node of
        None \<Rightarrow> Some []
      | Some a \<Rightarrow>
          (case h a of
             None \<Rightarrow> None
           | Some n \<Rightarrow>
               Option.bind (print_subtree as_int h (tn_right n) (depth + 1)) (\<lambda>rs.
               Option.bind (print_subtree as_int h (tn_left n) (depth + 1)) (\<lambda>ls.
               Some (rs @ concat (replicate (nat depth) ''  '')
                        @ fmt_data as_int (tn_data n) @ [newline] @ ls)))))"

declare print_subtree.simps [code]

definition ds_tree_visualize ::
  "('a \<Rightarrow> 32 word) \<Rightarrow> 'a tree_store \<Rightarrow> ds_tree option \<Rightarrow> stream option
     \<Rightarrow> (stream \<times> string) option"
where
  "ds_tree_visualize as_int h T out =
     (case T of
        None \<Rightarrow> Some (default_stdout out, ''Tree: NULL'' @ [newline])
      | Some t \<Rightarrow>
          if t_root t = None then
            Some (default_stdout out,
                  ''Tree: [empty] (size: '' @ fmt_zu (t_size t) @ '')'' @ [newline])
          else
            (case print_subtree as_int h (t_root t) 0 of
               None \<Rightarrow> None
             | Some written \<Rightarrow>
                 Some (default_stdout out,
                       ''Tree: (size: '' @ fmt_zu (t_size t) @ '')'' @ [newline]
                         @ ''Root at left, leaves at right:'' @ [newline]
                         @ written @ [newline])))"


section \<open>Calling sequences and observations\<close>

text \<open>
  What follows is not in the library: it is the caller's side of the properties below. A
  sequence of \<^verbatim>\<open>ds_tree_insert\<close> calls on one tree with one comparator is a list of
  pairs, the outcome of the call's allocation and the payload passed. \<open>insert_calls\<close>
  makes the calls one after the other and is \<open>None\<close> when one of them does not
  return. \<open>allocs_fresh\<close> states what \<^verbatim>\<open>malloc\<close> guarantees along the sequence: a
  block it returns is not live at the time of the call.
\<close>

fun insert_calls ::
  "'a comparator \<Rightarrow> (addr option \<times> 'a option) list \<Rightarrow> 'a tree_store \<Rightarrow> ds_tree
     \<Rightarrow> ('a tree_store \<times> ds_tree) option"
where
  "insert_calls cmp [] h T = Some (h, T)"
| "insert_calls cmp ((new, d) # cs) h T =
     (case ds_tree_insert new h (Some T) d (Some cmp) of
        Some (e, h', Some T') \<Rightarrow> insert_calls cmp cs h' T'
      | _ \<Rightarrow> None)"

fun allocs_fresh ::
  "'a comparator \<Rightarrow> (addr option \<times> 'a option) list \<Rightarrow> 'a tree_store \<Rightarrow> ds_tree \<Rightarrow> bool"
where
  "allocs_fresh cmp [] h T = True"
| "allocs_fresh cmp ((new, d) # cs) h T =
     ((case new of None \<Rightarrow> True | Some a \<Rightarrow> h a = None) \<and>
      (case ds_tree_insert new h (Some T) d (Some cmp) of
         Some (e, h', Some T') \<Rightarrow> allocs_fresh cmp cs h' T'
       | _ \<Rightarrow> True))"

text \<open>
  The in-order traversal (left, self, right) of the tree in the store, as the list of the
  payload pointers met, and the payload of the root node
  (\<^verbatim>\<open>T->root->data\<close>).
\<close>

partial_function (option) inorder_walk :: "'a tree_store \<Rightarrow> addr option \<Rightarrow> 'a option list option"
where
  "inorder_walk h node =
     (case node of
        None \<Rightarrow> Some []
      | Some a \<Rightarrow>
          (case h a of
             None \<Rightarrow> None
           | Some n \<Rightarrow>
               Option.bind (inorder_walk h (tn_left n)) (\<lambda>ls.
               Option.bind (inorder_walk h (tn_right n)) (\<lambda>rs.
               Some (ls @ tn_data n # rs)))))"

declare inorder_walk.simps [code]

definition root_payload :: "'a tree_store \<Rightarrow> ds_tree \<Rightarrow> 'a option option" where
  "root_payload h T =
     (case t_root T of
        None \<Rightarrow> None
      | Some r \<Rightarrow> (case h r of None \<Rightarrow> None | Some n \<Rightarrow> Some (tn_data n)))"

text \<open>
  The end-to-end scenario of the tree with the blocks 1 to 5: insert 50, 30, 70, 20, 40
  into the empty tree with \<^verbatim>\<open>cmp_int\<close>, then remove 50.
\<close>

definition scenario_result :: "(ds_error \<times> 32 word tree_store \<times> ds_tree option) option" where
  "scenario_result =
     (case insert_calls cmp_int
             [(Some 1, Some 50), (Some 2, Some 30), (Some 3, Some 70), (Some 4, Some 20),
              (Some 5, Some 40)] Map.empty \<lparr>t_root = None, t_size = 0\<rparr> of
        None \<Rightarrow> None
      | Some (h, T) \<Rightarrow> ds_tree_remove h (Some T) (Some 50) (Some cmp_int))"

definition scenario_root_payload :: "32 word option option" where
  "scenario_root_payload =
     (case scenario_result of
        Some (e, h', Some T') \<Rightarrow> root_payload h' T'
      | _ \<Rightarrow> None)"

text \<open>
  Pushing a sequence of payloads at the back of a list, each into the block paired with
  it, and popping from the front until \<^verbatim>\<open>ds_list_pop_front\<close> returns \<^verbatim>\<open>NULL\<close>.
\<close>

fun push_back_all ::
  "(addr \<times> 'a) list \<Rightarrow> 'a list_store \<Rightarrow> ds_list \<Rightarrow> ('a list_store \<times> ds_list) option"
where
  "push_back_all [] h l = Some (h, l)"
| "push_back_all ((a, x) # ps) h l =
     (case ds_list_push_back (Some a) h (Some l) (Some x) of
        Some (DS_OK, h', Some l') \<Rightarrow> push_back_all ps h' l'
      | _ \<Rightarrow> None)"

partial_function (option) pop_front_all :: "'a list_store \<Rightarrow> ds_list \<Rightarrow> 'a list option"
where
  "pop_front_all h l =
     (case ds_list_pop_front h (Some l) of
        None \<Rightarrow> None
      | Some (None, h', L') \<Rightarrow> Some []
      | Some (Some x, h', None) \<Rightarrow> None
      | Some (Some x, h', Some l') \<Rightarrow>
          Option.bind (pop_front_all h' l') (\<lambda>xs. Some (x # xs)))"

declare pop_front_all.simps [code]


section \<open>Well-formed stores\<close>

text \<open>
  A comparator is a three-way comparison of a total preorder when swapping its arguments
  swaps the sign of its result and \<open>\<le> 0\<close> is transitive. (\<^verbatim>\<open>cmp_int\<close> is one only
  as long as the subtraction does not overflow.)
\<close>

definition three_way :: "'a comparator \<Rightarrow> bool" where
  "three_way cmp =
     ((\<forall>x y. (cmp x y < 0) = (0 < cmp y x)) \<and>
      (\<forall>x y z. cmp x y \<le> 0 \<and> cmp y z \<le> 0 \<longrightarrow> cmp x z \<le> 0))"

abbreviation before :: "'a comparator \<Rightarrow> 'a \<Rightarrow> 'a \<Rightarrow> bool" where
  "before cmp \<equiv> (\<lambda>x y. cmp x y < 0)"

text \<open>
  The shape of a tree in the store: which block holds which payload, and how the blocks
  are linked. \<open>tree_at h p t\<close> says that the pointer \<open>p\<close> heads the tree \<open>t\<close> in the
  store \<open>h\<close>; \<open>addrs\<close> and \<open>keys\<close> list the blocks and the payloads in order.
  \<open>tree_inv\<close> is the invariant of a tree and its store between two calls: the root
  heads a tree whose blocks are pairwise distinct and are all the live blocks of the
  store, and the cached size is the number of nodes.
\<close>

datatype 'a tree = Leaf | Node "'a tree" addr 'a "'a tree"

fun addrs :: "'a tree \<Rightarrow> addr list" where
  "addrs Leaf = []"
| "addrs (Node l a x r) = addrs l @ a # addrs r"

fun keys :: "'a tree \<Rightarrow> 'a list" where
  "keys Leaf = []"
| "keys (Node l a x r) = keys l @ x # keys r"

fun tree_at :: "'a tree_store \<Rightarrow> addr option \<Rightarrow> 'a tree \<Rightarrow> bool" where
  "tree_at h p Leaf = (p = None)"
| "tree_at h p (Node l a x r) =
     (p = Some a \<and>
      (case h a of
         None \<Rightarrow> False
       | Some n \<Rightarrow> tn_data n = Some x \<and> tree_at h (tn_left n) l \<and> tree_at h (tn_right n) r))"

definition tree_inv :: "'a tree_store \<Rightarrow> ds_tree \<Rightarrow> 'a tree \<Rightarrow> bool" where
  "tree_inv h T t =
     (tree_at h (t_root T) t \<and> distinct (addrs t) \<and> dom h = set (addrs t) \<and>
      t_size T = of_nat (length (addrs t)))"

text \<open>
  The same for the chain of a list (with its tail pointer at the last node) and of a stack.
\<close>

fun list_at :: "'a list_store \<Rightarrow> addr option \<Rightarrow> (addr \<times> 'a) list \<Rightarrow> bool" where
  "list_at h p [] = (p = None)"
| "list_at h p ((a, x) # xs) =
     (p = Some a \<and>
      (case h a of
         None \<Rightarrow> False
       | Some n \<Rightarrow> ln_data n = Some x \<and> list_at h (ln_next n) xs))"

definition list_inv :: "'a list_store \<Rightarrow> ds_list \<Rightarrow> (addr \<times> 'a) list \<Rightarrow> bool" where
  "list_inv h l xs =
     (list_at h (l_head l) xs \<and> distinct (map fst xs) \<and> dom h = set (map fst xs) \<and>
      l_tail l = (if xs = [] then None else Some (fst (last xs))) \<and>
      l_size l = of_nat (length xs))"

fun stack_at :: "'a stack_store \<Rightarrow> addr option \<Rightarrow> (addr \<times> 'a) list \<Rightarrow> bool" where
  "stack_at h p [] = (p = None)"
| "stack_at h p ((a, x) # xs) =
     (p = Some a \<and>
      (case h a of
         None \<Rightarrow> False
       | Some n \<Rightarrow> sn_data n = Some x \<and> stack_at h (sn_next n) xs))"


section \<open>The tree operations on shapes\<close>

text \<open>
  Functions on shapes that the proofs use to say what the loops of \<^verbatim>\<open>ds_tree_insert\<close>
  and \<^verbatim>\<open>ds_tree_remove\<close> compute: how the descent of the insertion and of the
  removal is left, the shape after an insertion, the leftmost node of a subtree with its
  parent, and the shape after the removal of a node with two children.
\<close>

fun ins :: "'a comparator \<Rightarrow> addr \<Rightarrow> 'a \<Rightarrow> 'a tree \<Rightarrow> 'a tree" where
  "ins cmp a x Leaf = Node Leaf a x Leaf"
| "ins cmp a x (Node l c y r) =
     (if cmp x y < 0 then Node (ins cmp a x l) c y r
      else if cmp x y > 0 then Node l c y (ins cmp a x r)
      else Node l c y r)"

fun ins_exit :: "'a comparator \<Rightarrow> 'a \<Rightarrow> 'a tree \<Rightarrow> addr option \<Rightarrow> insert_exit" where
  "ins_exit cmp x Leaf parent = Empty_Slot parent"
| "ins_exit cmp x (Node l c y r) parent =
     (if cmp x y < 0 then ins_exit cmp x l (Some c)
      else if cmp x y > 0 then ins_exit cmp x r (Some c)
      else Equal_Key)"

definition link_new ::
  "'a comparator \<Rightarrow> 'a \<Rightarrow> addr \<Rightarrow> 'a tree_store \<Rightarrow> addr \<Rightarrow> 'a ds_tree_node \<Rightarrow> 'a \<Rightarrow> 'a tree_store" where
  "link_new cmp x a h p pn y =
     (if cmp x y < 0 then h(p \<mapsto> pn\<lparr>tn_left := Some a\<rparr>) else h(p \<mapsto> pn\<lparr>tn_right := Some a\<rparr>))"

fun remove_exit :: "'a comparator \<Rightarrow> 'a \<Rightarrow> 'a tree \<Rightarrow> addr option \<Rightarrow> addr option \<times> addr option" where
  "remove_exit cmp x Leaf parent = (None, parent)"
| "remove_exit cmp x (Node l c y r) parent =
     (if cmp x y < 0 then remove_exit cmp x l (Some c)
      else if cmp x y > 0 then remove_exit cmp x r (Some c)
      else (Some c, parent))"

fun min_addr :: "'a tree \<Rightarrow> addr \<Rightarrow> addr" where
  "min_addr Leaf d = d"
| "min_addr (Node l a x r) d = min_addr l a"

fun min_key :: "'a tree \<Rightarrow> 'a \<Rightarrow> 'a" where
  "min_key Leaf d = d"
| "min_key (Node l a x r) d = min_key l x"

fun min_parent :: "'a tree \<Rightarrow> addr \<Rightarrow> addr \<Rightarrow> addr" where
  "min_parent Leaf sp d = sp"
| "min_parent (Node l a x r) sp d = min_parent l d a"

fun del_min :: "'a tree \<Rightarrow> 'a tree" where
  "del_min Leaf = Leaf"
| "del_min (Node l a x r) = (if l = Leaf then r else Node (del_min l) a x r)"

fun del_at :: "addr \<Rightarrow> 'a tree \<Rightarrow> 'a tree" where
  "del_at c Leaf = Leaf"
| "del_at c (Node l a y r) =
     (if c = a then Node l a (min_key r y) (del_min r)
      else Node (del_at c l) a y (del_at c r))"

fun subtree :: "addr \<Rightarrow> 'a tree \<Rightarrow> 'a tree" where
  "subtree c Leaf = Leaf"
| "subtree c (Node l a y r) =
     (if c = a then Node l a y r
      else if c \<in> set (addrs l) then subtree c l
      else subtree c r)"

text \<open>The tree 50 (30, 70 (60 (-, 65), 80)) in the blocks 1 to 6.\<close>

definition example_store :: "int tree_store" where
  "example_store =
     [1 \<mapsto> \<lparr>tn_data = Some 50, tn_left = Some 2, tn_right = Some 3\<rparr>,
      2 \<mapsto> \<lparr>tn_data = Some 30, tn_left = None, tn_right = None\<rparr>,
      3 \<mapsto> \<lparr>tn_data = Some 70, tn_left = Some 4, tn_right = Some 6\<rparr>,
      4 \<mapsto> \<lparr>tn_data = Some 60, tn_left = None, tn_right = Some 5\<rparr>,
      5 \<mapsto> \<lparr>tn_data = Some 65, tn_left = None, tn_right = None\<rparr>,
      6 \<mapsto> \<lparr>tn_data = Some 80, tn_left = None, tn_right = None\<rparr>]"

definition example_tree :: ds_tree where
  "example_tree = \<lparr>t_root = Some 1, t_size = 6\<rparr>"

definition example_shape :: "int tree" where
  "example_shape =
     Node (Node Leaf 2 30 Leaf) 1 50
          (Node (Node Leaf 4 60 (Node Leaf 5 65 Leaf)) 3 70 (Node Leaf 6 80 Leaf))"


section \<open>Properties of the tree\<close>

lemma tree_at_frame:
  "\<forall>a\<in>set (addrs t). h' a = h a \<Longrightarrow> tree_at h' p t = tree_at h p t"
proof (induction t arbitrary: p)
  case Leaf
  show ?case by simp
next
  case (Node l a x r)
  have "h' a = h a" using Node.prems by simp
  moreover have "\<And>q. tree_at h' q l = tree_at h q l" using Node by simp
  moreover have "\<And>q. tree_at h' q r = tree_at h q r" using Node by simp
  ultimately show ?case by (simp split: option.splits)
qed

lemma tree_at_upd: "a \<notin> set (addrs t) \<Longrightarrow> tree_at (h(a := v)) p t = tree_at h p t"
  by (rule tree_at_frame) auto

lemma tree_at_live: "tree_at h p t \<Longrightarrow> a \<in> set (addrs t) \<Longrightarrow> h a \<noteq> None"
  by (induction t arbitrary: p) (auto split: option.splits)

lemma insert_loop_exit:
  "tree_at h p t \<Longrightarrow> insert_loop h cmp x p parent = Some (ins_exit cmp x t parent)"
proof (induction t arbitrary: p parent)
  case Leaf
  then show ?case by (simp add: insert_loop.simps)
next
  case (Node l c y r)
  then show ?case
    by (subst insert_loop.simps) (auto split: option.splits simp: Let_def)
qed

lemma ins_equal: "ins_exit cmp x t parent = Equal_Key \<Longrightarrow> ins cmp a x t = t"
  by (induction t arbitrary: parent) (auto split: if_splits)

lemma ins_slot:
  assumes "tree_at h p t" "distinct (addrs t)" "a \<notin> set (addrs t)"
    "h a = Some \<lparr>tn_data = Some x, tn_left = None, tn_right = None\<rparr>"
    "ins_exit cmp x t parent = Empty_Slot q" "t \<noteq> Leaf"
  shows "\<exists>pa pn y. q = Some pa \<and> pa \<in> set (addrs t) \<and> h pa = Some pn \<and> tn_data pn = Some y \<and>
           tree_at (link_new cmp x a h pa pn y) p (ins cmp a x t)"
  using assms
proof (induction t arbitrary: p parent)
  case Leaf
  then show ?case by simp
next
  case (Node l c y r)
  from Node.prems(1) obtain n where n: "p = Some c" "h c = Some n" "tn_data n = Some y"
      "tree_at h (tn_left n) l" "tree_at h (tn_right n) r"
    by (auto split: option.splits)
  have ac: "a \<noteq> c" using Node.prems(3) by simp
  consider (L) "cmp x y < 0" | (R) "\<not> cmp x y < 0" "cmp x y > 0" | (E) "\<not> cmp x y < 0" "\<not> cmp x y > 0"
    by blast
  then show ?case
  proof cases
    case L
    show ?thesis
    proof (cases l)
      case Leaf
      with L Node.prems(5) have q: "q = Some c" by simp
      let ?h' = "link_new cmp x a h c n y"
      have h'c: "?h' c = Some (n\<lparr>tn_left := Some a\<rparr>)" using L by (simp add: link_new_def)
      have h'a: "?h' a = h a" using ac L by (simp add: link_new_def)
      have "tree_at ?h' (tn_right n) r = tree_at h (tn_right n) r"
        by (rule tree_at_frame) (use Node.prems(2) L in \<open>auto simp: link_new_def\<close>)
      with n h'c h'a Node.prems(4) L Leaf have "tree_at ?h' p (ins cmp a x (Node l c y r))"
        by simp
      with q n show ?thesis by auto
    next
      case (Node l1 c1 y1 r1)
      then have lne: "l \<noteq> Leaf" by simp
      from L Node.prems(5) have ex: "ins_exit cmp x l (Some c) = Empty_Slot q" by simp
      from Node.IH(1)[OF n(4) _ _ Node.prems(4) ex lne] Node.prems(2,3)
      obtain pa pn y' where pa: "q = Some pa" "pa \<in> set (addrs l)" "h pa = Some pn"
          "tn_data pn = Some y'" "tree_at (link_new cmp x a h pa pn y') (tn_left n) (ins cmp a x l)"
        by auto
      let ?h' = "link_new cmp x a h pa pn y'"
      have pac: "pa \<noteq> c" using pa(2) Node.prems(2) by auto
      have h'c: "?h' c = Some n" using pac n by (simp add: link_new_def)
      have "tree_at ?h' (tn_right n) r = tree_at h (tn_right n) r"
        by (rule tree_at_frame) (use Node.prems(2) pa(2) in \<open>auto simp: link_new_def\<close>)
      with n h'c pa(5) L have "tree_at ?h' p (ins cmp a x (Node l c y r))"
        by simp
      with pa show ?thesis by auto
    qed
  next
    case R
    show ?thesis
    proof (cases r)
      case Leaf
      with R Node.prems(5) have q: "q = Some c" by simp
      let ?h' = "link_new cmp x a h c n y"
      have h'c: "?h' c = Some (n\<lparr>tn_right := Some a\<rparr>)" using R by (simp add: link_new_def)
      have h'a: "?h' a = h a" using ac R by (simp add: link_new_def)
      have "tree_at ?h' (tn_left n) l = tree_at h (tn_left n) l"
        by (rule tree_at_frame) (use Node.prems(2) R in \<open>auto simp: link_new_def\<close>)
      with n h'c h'a Node.prems(4) R Leaf have "tree_at ?h' p (ins cmp a x (Node l c y r))"
        by simp
      with q n show ?thesis by auto
    next
      case (Node l1 c1 y1 r1)
      then have rne: "r \<noteq> Leaf" by simp
      from R Node.prems(5) have ex: "ins_exit cmp x r (Some c) = Empty_Slot q" by simp
      from Node.IH(2)[OF n(5) _ _ Node.prems(4) ex rne] Node.prems(2,3)
      obtain pa pn y' where pa: "q = Some pa" "pa \<in> set (addrs r)" "h pa = Some pn"
          "tn_data pn = Some y'" "tree_at (link_new cmp x a h pa pn y') (tn_right n) (ins cmp a x r)"
        by auto
      let ?h' = "link_new cmp x a h pa pn y'"
      have pac: "pa \<noteq> c" using pa(2) Node.prems(2) by auto
      have h'c: "?h' c = Some n" using pac n by (simp add: link_new_def)
      have "tree_at ?h' (tn_left n) l = tree_at h (tn_left n) l"
        by (rule tree_at_frame) (use Node.prems(2) pa(2) in \<open>auto simp: link_new_def\<close>)
      with n h'c pa(5) R have "tree_at ?h' p (ins cmp a x (Node l c y r))"
        by simp
      with pa show ?thesis by auto
    qed
  next
    case E
    with Node.prems(5) show ?thesis by simp
  qed
qed

lemma three_way_flip: "three_way cmp \<Longrightarrow> (0 < cmp x y) = (cmp y x < 0)"
  by (simp add: three_way_def)

lemma three_way_refl0: "three_way cmp \<Longrightarrow> cmp x y = 0 \<Longrightarrow> cmp y x = 0"
proof -
  assume tw: "three_way cmp" and e: "cmp x y = 0"
  have "\<not> cmp y x < 0" using three_way_flip[OF tw, of x y] e by simp
  moreover have "\<not> 0 < cmp y x" using three_way_flip[OF tw, of y x] e by simp
  ultimately show ?thesis by simp
qed

lemma three_way_le: "three_way cmp \<Longrightarrow> cmp x y \<le> 0 \<Longrightarrow> cmp y z \<le> 0 \<Longrightarrow> cmp x z \<le> 0"
  unfolding three_way_def by blast

lemma three_way_trans': "three_way cmp \<Longrightarrow> cmp x y < 0 \<Longrightarrow> cmp y z \<le> 0 \<Longrightarrow> cmp x z < 0"
proof -
  assume tw: "three_way cmp" and xy: "cmp x y < 0" and yz: "cmp y z \<le> 0"
  have xz: "cmp x z \<le> 0" using three_way_le[OF tw _ yz] xy by simp
  show ?thesis
  proof (rule ccontr)
    assume "\<not> cmp x z < 0"
    with xz have "cmp x z = 0" by simp
    then have "cmp z x = 0" by (rule three_way_refl0[OF tw])
    then have "cmp y x \<le> 0" using three_way_le[OF tw yz, of x] by simp
    moreover have "0 < cmp y x" using three_way_flip[OF tw, of y x] xy by simp
    ultimately show False by simp
  qed
qed

lemma three_way_minus: "three_way (\<lambda>a b :: int. a - b)"
  by (simp add: three_way_def)

lemma three_way_trans2: "three_way cmp \<Longrightarrow> cmp x y \<le> 0 \<Longrightarrow> cmp y z < 0 \<Longrightarrow> cmp x z < 0"
proof -
  assume tw: "three_way cmp" and xy: "cmp x y \<le> 0" and yz: "cmp y z < 0"
  have xz: "cmp x z \<le> 0" using three_way_le[OF tw xy] yz by simp
  show ?thesis
  proof (rule ccontr)
    assume "\<not> cmp x z < 0"
    with xz have "cmp x z = 0" by simp
    then have "cmp z x = 0" by (rule three_way_refl0[OF tw])
    then have "cmp z y \<le> 0" using three_way_le[OF tw _ xy, of z] by simp
    moreover have "0 < cmp z y" using three_way_flip[OF tw, of z y] yz by simp
    ultimately show False by simp
  qed
qed

lemma three_way_trans: "three_way cmp \<Longrightarrow> cmp x y < 0 \<Longrightarrow> cmp y z < 0 \<Longrightarrow> cmp x z < 0"
  using three_way_trans'[of cmp x y z] by simp

lemma keys_ins_subset: "set (keys (ins cmp a x t)) \<subseteq> insert x (set (keys t))"
  by (induction t) auto

lemma addrs_ins_subset: "set (addrs (ins cmp a x t)) \<subseteq> insert a (set (addrs t))"
  by (induction t) auto

lemma distinct_ins: "distinct (addrs t) \<Longrightarrow> a \<notin> set (addrs t) \<Longrightarrow> distinct (addrs (ins cmp a x t))"
proof (induction t)
  case Leaf
  show ?case by simp
next
  case (Node l c y r)
  have "set (addrs (ins cmp a x l)) \<subseteq> insert a (set (addrs l))"
       "set (addrs (ins cmp a x r)) \<subseteq> insert a (set (addrs r))"
    by (rule addrs_ins_subset)+
  with Node show ?case by (auto simp: disjoint_iff)
qed

lemma length_ins:
  "length (addrs (ins cmp a x t)) =
     (if ins_exit cmp x t parent = Equal_Key then length (addrs t) else Suc (length (addrs t)))"
proof (induction t arbitrary: parent)
  case Leaf
  show ?case by simp
next
  case (Node l c y r)
  show ?case using Node.IH(1)[of "Some c"] Node.IH(2)[of "Some c"] by auto
qed

lemma sorted_ins:
  assumes "three_way cmp"
  shows "sorted_wrt (before cmp) (keys t) \<Longrightarrow> sorted_wrt (before cmp) (keys (ins cmp a x t))"
proof (induction t)
  case Leaf
  show ?case by simp
next
  case (Node l c y r)
  have sub: "set (keys (ins cmp a x l)) \<subseteq> insert x (set (keys l))"
       "set (keys (ins cmp a x r)) \<subseteq> insert x (set (keys r))"
    by (rule keys_ins_subset)+
  from Node.prems have parts: "sorted_wrt (before cmp) (keys l)" "sorted_wrt (before cmp) (keys r)"
      "\<forall>k\<in>set (keys l). before cmp k y" "\<forall>k\<in>set (keys r). before cmp y k"
      "\<forall>k\<in>set (keys l). \<forall>k'\<in>set (keys r). before cmp k k'"
    by (auto simp: sorted_wrt_append)
  consider (L) "cmp x y < 0" | (R) "\<not> cmp x y < 0" "cmp x y > 0" | (E) "\<not> cmp x y < 0" "\<not> cmp x y > 0"
    by blast
  then show ?case
  proof cases
    case L
    have "\<forall>k\<in>set (keys r). before cmp x k"
      using parts(4) L three_way_trans[OF assms] by auto
    with L sub(1) parts Node.IH(1) show ?thesis
      by (auto simp: sorted_wrt_append)
  next
    case R
    then have yx: "cmp y x < 0" using three_way_flip[OF assms] by simp
    have "\<forall>k\<in>set (keys l). before cmp k x"
      using parts(3) yx three_way_trans[OF assms] by auto
    with R yx sub(2) parts Node.IH(2) show ?thesis
      by (auto simp: sorted_wrt_append)
  next
    case E
    with Node.prems show ?thesis by simp
  qed
qed

lemma ins_exit_member:
  assumes "three_way cmp"
  shows "sorted_wrt (before cmp) (keys t) \<Longrightarrow> y \<in> set (keys t) \<Longrightarrow> cmp x y = 0
           \<Longrightarrow> ins_exit cmp x t parent = Equal_Key"
proof (induction t arbitrary: parent)
  case Leaf
  then show ?case by simp
next
  case (Node l c y0 r)
  from Node.prems(1) have parts: "sorted_wrt (before cmp) (keys l)" "sorted_wrt (before cmp) (keys r)"
      "\<forall>k\<in>set (keys l). cmp k y0 < 0" "\<forall>k\<in>set (keys r). cmp y0 k < 0"
    by (auto simp: sorted_wrt_append)
  consider (L) "cmp x y0 < 0" | (R) "\<not> cmp x y0 < 0" "cmp x y0 > 0" | (E) "\<not> cmp x y0 < 0" "\<not> cmp x y0 > 0"
    by blast
  then show ?case
  proof cases
    case L
    have "y \<noteq> y0" using L Node.prems(3) by auto
    moreover have "y \<notin> set (keys r)"
    proof
      assume "y \<in> set (keys r)"
      then have "cmp y0 y < 0" using parts(4) by simp
      with L have "cmp x y < 0" using three_way_trans[OF assms] by blast
      with Node.prems(3) show False by simp
    qed
    ultimately have "y \<in> set (keys l)" using Node.prems(2) by auto
    with Node.IH(1)[OF parts(1) _ Node.prems(3)] L show ?thesis by simp
  next
    case R
    then have y0x: "cmp y0 x < 0" using three_way_flip[OF assms] by simp
    have "y \<noteq> y0" using R Node.prems(3) by auto
    moreover have "y \<notin> set (keys l)"
    proof
      assume "y \<in> set (keys l)"
      then have "cmp y y0 < 0" using parts(3) by simp
      with y0x have "cmp y x < 0" using three_way_trans[OF assms] by blast
      then have "0 < cmp x y" using three_way_flip[OF assms] by simp
      with Node.prems(3) show False by simp
    qed
    ultimately have "y \<in> set (keys r)" using Node.prems(2) by auto
    with Node.IH(2)[OF parts(2) _ Node.prems(3)] R show ?thesis by simp
  next
    case E
    then show ?thesis by simp
  qed
qed

lemma inorder_walk_tree_at: "tree_at h p t \<Longrightarrow> inorder_walk h p = Some (map Some (keys t))"
proof (induction t arbitrary: p)
  case Leaf
  then show ?case by (simp add: inorder_walk.simps)
next
  case (Node l a x r)
  then show ?case
    by (subst inorder_walk.simps) (auto split: option.splits)
qed

lemma addrs_ins_set:
  "ins_exit cmp x t parent \<noteq> Equal_Key \<Longrightarrow>
     set (addrs (ins cmp a x t)) = insert a (set (addrs t))"
proof (induction t arbitrary: parent)
  case Leaf
  show ?case by simp
next
  case (Node l c y r)
  show ?case using Node.IH(1)[of "Some c"] Node.IH(2)[of "Some c"] Node.prems
    by (auto split: if_splits)
qed

lemma ds_tree_insert_inv:
  assumes inv: "tree_inv h T t" and fresh: "h a = None"
  shows "\<exists>h' T'. ds_tree_insert (Some a) h (Some T) (Some x) (Some cmp) = Some (DS_OK, h', Some T')
           \<and> tree_inv h' T' (ins cmp a x t)
           \<and> (ins_exit cmp x t None = Equal_Key \<longrightarrow> h' = h \<and> T' = T)"
proof -
  let ?new = "\<lparr>tn_data = Some x, tn_left = None, tn_right = None\<rparr>"
  let ?h1 = "h(a \<mapsto> ?new)"
  from inv have at: "tree_at h (t_root T) t" and dist: "distinct (addrs t)"
      and dm: "dom h = set (addrs t)"
      and sz: "t_size T = of_nat (length (addrs t))"
    by (simp_all add: tree_inv_def)
  have notin: "a \<notin> set (addrs t)" using tree_at_live[OF at] fresh by blast
  have at1: "tree_at ?h1 (t_root T) t"
    using at notin by (simp add: tree_at_upd)
  show ?thesis
  proof (cases t)
    case Leaf
    with at have "t_root T = None" by simp
    with Leaf sz dm show ?thesis
      by (simp add: ds_tree_insert_def tree_inv_def)
  next
    case (Node l c y r)
    with at have root: "t_root T = Some c" by simp
    have tne: "t \<noteq> Leaf" using Node by simp
    have loop: "insert_loop ?h1 cmp x (Some c) None = Some (ins_exit cmp x t None)"
      using insert_loop_exit[OF at1] root by simp
    show ?thesis
    proof (cases "ins_exit cmp x t None")
      case Equal_Key
      have "?h1(a := None) = h" using fresh by (auto simp: fun_eq_iff)
      with Equal_Key loop root inv ins_equal[OF Equal_Key] show ?thesis
        by (simp add: ds_tree_insert_def Let_def)
    next
      case (Empty_Slot q)
      from ins_slot[OF at1 dist notin _ Empty_Slot tne]
      obtain pa pn y' where pa: "q = Some pa" "?h1 pa = Some pn" "tn_data pn = Some y'"
          "tree_at (link_new cmp x a ?h1 pa pn y') (t_root T) (ins cmp a x t)"
          "pa \<in> set (addrs t)"
        by auto
      have len: "length (addrs (ins cmp a x t)) = Suc (length (addrs t))"
        using length_ins[of cmp a x t None] Empty_Slot by simp
      have "set (addrs (ins cmp a x t)) = insert a (set (addrs t))"
        by (rule addrs_ins_set[of cmp x t None]) (simp add: Empty_Slot)
      then have dm': "dom (link_new cmp x a ?h1 pa pn y') = set (addrs (ins cmp a x t))"
        using dm pa(5) by (auto simp: link_new_def)
      have "tree_inv (link_new cmp x a ?h1 pa pn y') (T\<lparr>t_size := t_size T + 1\<rparr>) (ins cmp a x t)"
        using pa(4) distinct_ins[OF dist notin] sz len dm' by (simp add: tree_inv_def)
      with Empty_Slot loop root pa(1,2,3) show ?thesis
        by (simp add: ds_tree_insert_def link_new_def Let_def)
    qed
  qed
qed

lemma insert_calls_inv:
  assumes tw: "three_way cmp"
  shows "tree_inv h T t \<Longrightarrow> sorted_wrt (before cmp) (keys t) \<Longrightarrow> allocs_fresh cmp cs h T
    \<Longrightarrow> \<exists>h' T' t'. insert_calls cmp cs h T = Some (h', T') \<and> tree_inv h' T' t'
          \<and> sorted_wrt (before cmp) (keys t')"
proof (induction cs arbitrary: h T t)
  case Nil
  then show ?case by auto
next
  case (Cons call cs)
  obtain new d where call: "call = (new, d)" by (cases call)
  show ?case
  proof (cases "new = None \<or> d = None")
    case True
    then have same: "\<exists>e. ds_tree_insert new h (Some T) d (Some cmp) = Some (e, h, Some T)"
      by (auto simp: ds_tree_insert_def split: option.splits)
    with Cons.prems(3) call have "allocs_fresh cmp cs h T" by auto
    from Cons.IH[OF Cons.prems(1,2) this] same call show ?thesis by auto
  next
    case False
    then obtain a x where ax: "new = Some a" "d = Some x" by auto
    with Cons.prems(3) call have fresh: "h a = None" by simp
    from ds_tree_insert_inv[OF Cons.prems(1) fresh, of x cmp]
    obtain h1 T1 where step: "ds_tree_insert (Some a) h (Some T) (Some x) (Some cmp) = Some (DS_OK, h1, Some T1)"
        "tree_inv h1 T1 (ins cmp a x t)"
      by blast
    have srt: "sorted_wrt (before cmp) (keys (ins cmp a x t))"
      by (rule sorted_ins[OF tw Cons.prems(2)])
    from Cons.prems(3) call ax step(1) have "allocs_fresh cmp cs h1 T1" by simp
    from Cons.IH[OF step(2) srt this] step(1) call ax show ?thesis by simp
  qed
qed

lemma tree_inv_create: "ds_tree_create ok = Some T0 \<Longrightarrow> tree_inv Map.empty T0 Leaf"
  by (auto simp: ds_tree_create_def tree_inv_def split: if_splits)

text \<open>
  Claim C3. Start from the empty tree that \<^verbatim>\<open>ds_tree_create\<close> returns and make any
  sequence of \<^verbatim>\<open>ds_tree_insert\<close> calls with one comparator that is a three-way
  comparison of a total preorder; a call may pass a null payload, and its allocation may
  fail or return any block that is not live. Then every call returns, and the in-order
  traversal (left, self, right) of the final tree yields payloads that are non-decreasing
  under the comparator, no two of which compare equal.
\<close>

theorem tree_inorder_sorted:
  assumes "three_way cmp" and "ds_tree_create ok = Some T0"
    and "allocs_fresh cmp calls Map.empty T0"
  shows "\<exists>h T ks. insert_calls cmp calls Map.empty T0 = Some (h, T)
           \<and> inorder_walk h (t_root T) = Some (map Some ks)
           \<and> sorted_wrt (\<lambda>x y. cmp x y \<le> 0) ks
           \<and> (\<forall>i j. i < length ks \<and> j < length ks \<and> i \<noteq> j \<longrightarrow> cmp (ks ! i) (ks ! j) \<noteq> 0)"
proof -
  from insert_calls_inv[OF assms(1) tree_inv_create[OF assms(2)] _ assms(3)]
  obtain h T t where run: "insert_calls cmp calls Map.empty T0 = Some (h, T)"
      and inv: "tree_inv h T t" and srt: "sorted_wrt (before cmp) (keys t)"
    by auto
  have walk: "inorder_walk h (t_root T) = Some (map Some (keys t))"
    using inv by (simp add: tree_inv_def inorder_walk_tree_at)
  have le: "sorted_wrt (\<lambda>x y. cmp x y \<le> 0) (keys t)"
    by (rule sorted_wrt_mono_rel[OF _ srt]) simp
  have ne: "cmp (keys t ! i) (keys t ! j) \<noteq> 0"
    if "i < length (keys t)" "j < length (keys t)" "i \<noteq> j" for i j
  proof (cases "i < j")
    case True
    then have "cmp (keys t ! i) (keys t ! j) < 0"
      using sorted_wrt_nth_less[OF srt] that by simp
    then show ?thesis by simp
  next
    case False
    with that have "j < i" by simp
    then have "cmp (keys t ! j) (keys t ! i) < 0"
      using sorted_wrt_nth_less[OF srt] that by simp
    then have "0 < cmp (keys t ! i) (keys t ! j)"
      using three_way_flip[OF assms(1)] by simp
    then show ?thesis by simp
  qed
  from run walk le ne show ?thesis by blast
qed

theorem tree_inorder_sorted_witness:
  "three_way (\<lambda>a b :: int. a - b)
   \<and> ds_tree_create True = Some \<lparr>t_root = None, t_size = 0\<rparr>
   \<and> allocs_fresh (\<lambda>a b. a - b) [(Some 1, Some 50), (Some 2, Some 30), (None, Some 60), (Some 3, None), (Some 3, Some 30), (Some 3, Some 70)] Map.empty \<lparr>t_root = None, t_size = 0\<rparr>
   \<and> (\<exists>h T ks. insert_calls (\<lambda>a b. a - b) [(Some 1, Some 50), (Some 2, Some 30), (None, Some 60), (Some 3, None), (Some 3, Some 30), (Some 3, Some 70)] Map.empty \<lparr>t_root = None, t_size = 0\<rparr> = Some (h, T)
           \<and> inorder_walk h (t_root T) = Some (map Some ks)
           \<and> sorted_wrt (\<lambda>x y. x - y \<le> 0) ks
           \<and> (\<forall>i j. i < length ks \<and> j < length ks \<and> i \<noteq> j \<longrightarrow> (ks ! i) - (ks ! j) \<noteq> 0))"
proof -
  have c: "ds_tree_create True = Some \<lparr>t_root = None, t_size = 0\<rparr>"
    by (simp add: ds_tree_create_def)
  have f: "allocs_fresh (\<lambda>a b :: int. a - b) [(Some 1, Some 50), (Some 2, Some 30), (None, Some 60), (Some 3, None), (Some 3, Some 30), (Some 3, Some 70)] Map.empty \<lparr>t_root = None, t_size = 0\<rparr>"
    by (simp add: ds_tree_insert_def insert_loop.simps)
  show ?thesis
    using tree_inorder_sorted[OF three_way_minus c f] three_way_minus c f by simp
qed

lemma successor_loop_min:
  "tree_at h (Some s) (Node l s x r) \<Longrightarrow>
     successor_loop h s sp = Some (min_addr l s, min_parent l sp s)"
proof (induction l arbitrary: s sp x r)
  case Leaf
  then show ?case
    by (subst successor_loop.simps) (auto split: option.splits)
next
  case (Node ll a y lr)
  from Node.prems obtain n where n: "h s = Some n" "tree_at h (tn_left n) (Node ll a y lr)"
    by (auto split: option.splits)
  then have l: "tn_left n = Some a" by simp
  from Node.IH(1)[of a y lr s] n l
  have "successor_loop h a s = Some (min_addr ll a, min_parent ll s a)" by simp
  with n l show ?case
    by (subst successor_loop.simps) simp
qed

lemma min_addr_in: "min_addr l a \<in> insert a (set (addrs l))"
  by (induction l arbitrary: a) auto

lemma addrs_del_min: "addrs (Node l a x r) = min_addr l a # addrs (del_min (Node l a x r))"
  by (induction l arbitrary: a x r) auto

lemma keys_del_min: "keys (Node l a x r) = min_key l x # keys (del_min (Node l a x r))"
  by (induction l arbitrary: a x r) auto

lemma min_node_heap:
  "tree_at h (Some s) (Node l s x r) \<Longrightarrow>
     \<exists>mn. h (min_addr l s) = Some mn \<and> tn_left mn = None \<and> tn_data mn = Some (min_key l x)"
proof (induction l arbitrary: s x r)
  case Leaf
  then show ?case by (auto split: option.splits)
next
  case (Node ll a y lr)
  from Node.prems obtain n where n: "h s = Some n" "tree_at h (tn_left n) (Node ll a y lr)"
    by (auto split: option.splits)
  then have "tree_at h (Some a) (Node ll a y lr)" by simp
  from Node.IH(1)[OF this] show ?case by simp
qed

lemma min_parent_heap:
  "tree_at h (Some s) (Node l s x r) \<Longrightarrow> l \<noteq> Leaf \<Longrightarrow> distinct (addrs (Node l s x r)) \<Longrightarrow>
     \<exists>mpn. h (min_parent l sp s) = Some mpn \<and> tn_left mpn = Some (min_addr l s)
       \<and> min_parent l sp s \<in> set (addrs (Node l s x r)) \<and> min_parent l sp s \<noteq> min_addr l s"
proof (induction l arbitrary: s x r sp)
  case Leaf
  then show ?case by simp
next
  case (Node ll a y lr)
  from Node.prems(1) obtain n where n: "h s = Some n" "tree_at h (tn_left n) (Node ll a y lr)"
    by (auto split: option.splits)
  then have la: "tn_left n = Some a" and at: "tree_at h (Some a) (Node ll a y lr)" by simp_all
  show ?case
  proof (cases ll)
    case Leaf
    with n la Node.prems(3) show ?thesis by auto
  next
    case (Node t1 a1 y1 t2)
    then have "ll \<noteq> Leaf" by simp
    from Node.IH(1)[OF at this, of s] Node.prems(3) show ?thesis by auto
  qed
qed

lemma splice_min:
  assumes "tree_at h (Some s) (Node l s x r)" "distinct (addrs (Node l s x r))" "l \<noteq> Leaf"
    "h (min_addr l s) = Some mn" "h (min_parent l sp s) = Some mpn"
    "h' (min_parent l sp s) = Some (mpn\<lparr>tn_left := tn_right mn\<rparr>)"
    "\<forall>b\<in>set (addrs (Node l s x r)) - {min_addr l s, min_parent l sp s}. h' b = h b"
  shows "tree_at h' (Some s) (del_min (Node l s x r))"
  using assms
proof (induction l arbitrary: s x r sp)
  case Leaf
  then show ?case by simp
next
  case (Node ll a y lr)
  from Node.prems(1) obtain n where n: "h s = Some n" "tn_data n = Some x" "tree_at h (tn_left n) (Node ll a y lr)"
      "tree_at h (tn_right n) r"
    by (auto split: option.splits)
  then have la: "tn_left n = Some a" and at: "tree_at h (Some a) (Node ll a y lr)" by simp_all
  from at obtain na where na: "h a = Some na" "tn_data na = Some y" "tree_at h (tn_left na) ll"
      "tree_at h (tn_right na) lr"
    by (auto split: option.splits)
  have min_in: "min_addr ll a \<in> insert a (set (addrs ll))" by (rule min_addr_in)
  show ?case
  proof (cases ll)
    case Leaf
    then have m: "min_addr (Node ll a y lr) s = a" "min_parent (Node ll a y lr) sp s = s" by simp_all
    with Node.prems(4,5,6) n na have h's: "h' s = Some (n\<lparr>tn_left := tn_right na\<rparr>)" by simp
    have "tree_at h' (tn_right na) lr = tree_at h (tn_right na) lr"
      by (rule tree_at_frame) (use Node.prems(2,7) m in auto)
    moreover have "tree_at h' (tn_right n) r = tree_at h (tn_right n) r"
      by (rule tree_at_frame) (use Node.prems(2,7) m in auto)
    ultimately show ?thesis using Leaf h's n na by simp
  next
    case (Node t1 a1 y1 t2)
    then have ne: "ll \<noteq> Leaf" by simp
    have dl: "distinct (addrs (Node ll a y lr))" using Node.prems(2) by auto
    from min_parent_heap[OF at ne dl, of s]
    have mp_in: "min_parent ll s a \<in> set (addrs (Node ll a y lr))" by blast
    have "tree_at h' (Some a) (del_min (Node ll a y lr))"
      by (rule Node.IH(1)[OF at dl ne, of s]) (use Node.prems(4,5,6,7) in auto)
    moreover have "h' s = h s" using Node.prems(2,7) min_in mp_in by auto
    moreover have "tree_at h' (tn_right n) r = tree_at h (tn_right n) r"
      by (rule tree_at_frame) (use Node.prems(2,7) min_in mp_in in auto)
    ultimately show ?thesis using n la by simp
  qed
qed

lemma tree_at_root_in: "tree_at h (Some a) t \<Longrightarrow> a \<in> set (addrs t)"
  by (cases t) auto

lemma tree_at_Some: "tree_at h (Some a) t \<Longrightarrow> \<exists>l x r. t = Node l a x r"
  by (cases t) auto

lemma tree_at_None: "tree_at h None t \<Longrightarrow> t = Leaf"
  by (cases t) auto

lemma remove_two_children_node:
  assumes at: "tree_at h (Some c) (Node l c y (Node rl s z rr))"
    and dist: "distinct (addrs (Node l c y (Node rl s z rr)))"
    and lne: "l \<noteq> Leaf"
  shows "\<exists>n mn mpn mpn' h'. h c = Some n \<and> tn_right n = Some s
      \<and> successor_loop h s c = Some (min_addr rl s, min_parent rl c s)
      \<and> h (min_addr rl s) = Some mn \<and> tn_left mn = None \<and> tn_data mn = Some (min_key rl z)
      \<and> h (min_parent rl c s) = Some mpn
      \<and> remove_two_children h c n s = Some h'
      \<and> tree_at h' (Some c) (Node l c (min_key rl z) (del_min (Node rl s z rr)))
      \<and> (\<forall>b. b \<noteq> c \<and> b \<noteq> min_addr rl s \<and> b \<noteq> min_parent rl c s \<longrightarrow> h' b = h b)
      \<and> min_addr rl s \<in> set (addrs (Node rl s z rr))
      \<and> min_parent rl c s \<in> set (addrs (Node l c y (Node rl s z rr)))
      \<and> h' (min_addr rl s) = None
      \<and> h' c = Some (n\<lparr>tn_data := tn_data mn,
            tn_right := (if min_parent rl c s = c then tn_right mn else tn_right n)\<rparr>)
      \<and> h' (min_parent rl c s) = Some mpn'
      \<and> (if tn_left mpn = Some (min_addr rl s)
          then tn_left mpn' = tn_right mn \<and> tn_right mpn' = tn_right mpn
          else tn_right mpn' = tn_right mn \<and> tn_left mpn' = tn_left mpn)"
proof -
  let ?r = "Node rl s z rr"
  let ?m = "min_addr rl s" and ?mp = "min_parent rl c s" and ?k = "min_key rl z"
  from at obtain n where n: "h c = Some n" "tn_data n = Some y" "tree_at h (tn_left n) l"
      "tree_at h (tn_right n) ?r"
    by (auto split: option.splits)
  then have rs: "tn_right n = Some s" and atr: "tree_at h (Some s) ?r" by simp_all
  from n(3) lne obtain lroot where lroot: "tn_left n = Some lroot"
    by (cases "tn_left n") (auto dest: tree_at_None)
  with n(3) have lroot_in: "lroot \<in> set (addrs l)" by (simp add: tree_at_root_in)
  have loop: "successor_loop h s c = Some (?m, ?mp)"
    by (rule successor_loop_min[OF atr])
  from min_node_heap[OF atr] obtain mn where mn: "h ?m = Some mn" "tn_left mn = None"
      "tn_data mn = Some ?k"
    by blast
  have m_in: "?m \<in> set (addrs ?r)" using min_addr_in[of rl s] by auto
  then have mc: "?m \<noteq> c" and ml: "?m \<notin> set (addrs l)" using dist by auto
  have dr: "distinct (addrs ?r)" using dist by auto
  let ?h1 = "h(c \<mapsto> n\<lparr>tn_data := tn_data mn\<rparr>)"
  have h1m: "?h1 ?m = Some mn" using mc mn by simp
  show ?thesis
  proof (cases rl)
    case Leaf
    then have m: "?m = s" "?mp = c" by simp_all
    from atr Leaf mn m have rr: "tree_at h (tn_right mn) rr" by (auto split: option.splits)
    have neq: "tn_left n \<noteq> Some s" using lroot lroot_in dist by auto
    let ?h' = "(?h1(c \<mapsto> n\<lparr>tn_data := tn_data mn, tn_right := tn_right mn\<rparr>))(s := None)"
    have res: "remove_two_children h c n s = Some ?h'"
      using loop mn m mc neq by (simp add: remove_two_children_def Let_def)
    have fl: "tree_at ?h' (tn_left n) l = tree_at h (tn_left n) l"
      by (rule tree_at_frame) (use dist in auto)
    have fr: "tree_at ?h' (tn_right mn) rr = tree_at h (tn_right mn) rr"
      by (rule tree_at_frame) (use dist in auto)
    have t: "tree_at ?h' (Some c) (Node l c ?k (del_min ?r))"
      using Leaf fl fr n rr mn mc m by simp
    show ?thesis
      using n rs loop mn res t m mc neq m_in by (auto simp: Leaf)
  next
    case (Node t1 a1 y1 t2)
    then have rlne: "rl \<noteq> Leaf" by simp
    from min_parent_heap[OF atr rlne dr, of c] obtain mpn where mpn: "h ?mp = Some mpn"
        "tn_left mpn = Some ?m" "?mp \<in> set (addrs ?r)" "?mp \<noteq> ?m"
      by blast
    then have mpc: "?mp \<noteq> c" using dist by auto
    let ?h' = "(?h1(?mp \<mapsto> mpn\<lparr>tn_left := tn_right mn\<rparr>))(?m := None)"
    have res: "remove_two_children h c n s = Some ?h'"
      using loop mn mpn mc mpc by (simp add: remove_two_children_def Let_def)
    have fl: "tree_at ?h' (tn_left n) l = tree_at h (tn_left n) l"
      by (rule tree_at_frame) (use dist mpn(3) m_in in auto)
    have sp: "tree_at ?h' (Some s) (del_min ?r)"
      by (rule splice_min[OF atr dr rlne mn(1) mpn(1)]) (use mpn mc mpc dist in auto)
    have t: "tree_at ?h' (Some c) (Node l c ?k (del_min ?r))"
      using fl sp n rs mn mc mpc by simp
    show ?thesis
      using n rs loop mn mpn res t mc mpc m_in by auto
  qed
qed

lemma remove_loop_exit:
  "tree_at h p t \<Longrightarrow> remove_loop h cmp x p parent = Some (remove_exit cmp x t parent)"
proof (induction t arbitrary: p parent)
  case Leaf
  then show ?case by (simp add: remove_loop.simps)
next
  case (Node l c y r)
  then show ?case
    by (subst remove_loop.simps) (auto split: option.splits simp: Let_def)
qed

lemma remove_exit_absent:
  "\<forall>y\<in>set (keys t). cmp x y \<noteq> 0 \<Longrightarrow> fst (remove_exit cmp x t parent) = None"
  by (induction t arbitrary: parent) auto

lemma key_at:
  "tree_at h p t \<Longrightarrow> c \<in> set (addrs t) \<Longrightarrow> h c = Some n \<Longrightarrow> tn_data n = Some y
     \<Longrightarrow> y \<in> set (keys t)"
  by (induction t arbitrary: p) (auto split: option.splits)

lemma remove_exit_found:
  assumes tw: "three_way cmp"
  shows "tree_at h p t \<Longrightarrow> distinct (addrs t) \<Longrightarrow> sorted_wrt (before cmp) (keys t)
     \<Longrightarrow> c \<in> set (addrs t) \<Longrightarrow> h c = Some n \<Longrightarrow> tn_data n = Some y \<Longrightarrow> cmp x y = 0
     \<Longrightarrow> fst (remove_exit cmp x t parent) = Some c"
proof (induction t arbitrary: p parent)
  case Leaf
  then show ?case by simp
next
  case (Node l c0 y0 r)
  from Node.prems(1) obtain n0 where n0: "h c0 = Some n0" "tn_data n0 = Some y0"
      "tree_at h (tn_left n0) l" "tree_at h (tn_right n0) r"
    by (auto split: option.splits)
  from Node.prems(3) have parts: "sorted_wrt (before cmp) (keys l)" "sorted_wrt (before cmp) (keys r)"
      "\<forall>k\<in>set (keys l). cmp k y0 < 0" "\<forall>k\<in>set (keys r). cmp y0 k < 0"
    by (auto simp: sorted_wrt_append)
  from Node.prems(2) have d: "distinct (addrs l)" "distinct (addrs r)" by auto
  consider (here) "c = c0" | (left) "c \<noteq> c0" "c \<in> set (addrs l)" | (right) "c \<noteq> c0" "c \<in> set (addrs r)"
    using Node.prems(4) by auto
  then show ?case
  proof cases
    case here
    with n0 Node.prems(5,6,7) show ?thesis by simp
  next
    case left
    have "y \<in> set (keys l)" by (rule key_at[OF n0(3) left(2) Node.prems(5,6)])
    then have "cmp y y0 < 0" using parts(3) by simp
    then have "cmp x y0 < 0" using three_way_trans2[OF tw, of x y y0] Node.prems(7) by simp
    with Node.IH(1)[OF n0(3) d(1) parts(1) left(2) Node.prems(5,6,7)] show ?thesis by simp
  next
    case right
    have "y \<in> set (keys r)" by (rule key_at[OF n0(4) right(2) Node.prems(5,6)])
    then have "cmp y0 y < 0" using parts(4) by simp
    moreover have "cmp y x = 0" by (rule three_way_refl0[OF tw Node.prems(7)])
    ultimately have "cmp y0 x < 0" using three_way_trans'[OF tw, of y0 y x] by simp
    then have "0 < cmp x y0" using three_way_flip[OF tw] by simp
    with Node.IH(2)[OF n0(4) d(2) parts(2) right(2) Node.prems(5,6,7)] show ?thesis by simp
  qed
qed

lemma subtree_at:
  "tree_at h p t \<Longrightarrow> c \<in> set (addrs t) \<Longrightarrow> tree_at h (Some c) (subtree c t)"
  by (induction t arbitrary: p) (auto split: option.splits)

lemma subtree_addrs: "set (addrs (subtree c t)) \<subseteq> set (addrs t)"
  by (induction t) auto

lemma subtree_distinct: "distinct (addrs t) \<Longrightarrow> distinct (addrs (subtree c t))"
  by (induction t) auto

lemma del_at_notin: "c \<notin> set (addrs t) \<Longrightarrow> del_at c t = t"
  by (induction t) auto

lemma del_at_lift:
  assumes "tree_at h p t" "distinct (addrs t)" "c \<in> set (addrs t)"
    "tree_at h' (Some c) (del_at c (subtree c t))"
    "\<forall>b. b \<notin> set (addrs (subtree c t)) \<longrightarrow> h' b = h b"
  shows "tree_at h' p (del_at c t)"
  using assms
proof (induction t arbitrary: p)
  case Leaf
  then show ?case by simp
next
  case (Node l a y r)
  from Node.prems(1) obtain n where n: "p = Some a" "h a = Some n" "tn_data n = Some y"
      "tree_at h (tn_left n) l" "tree_at h (tn_right n) r"
    by (auto split: option.splits)
  from Node.prems(2) have d: "distinct (addrs l)" "distinct (addrs r)" by auto
  consider (here) "c = a" | (left) "c \<noteq> a" "c \<in> set (addrs l)" | (right) "c \<noteq> a" "c \<in> set (addrs r)"
    using Node.prems(3) by auto
  then show ?case
  proof cases
    case here
    with Node.prems(4) n(1) show ?thesis by simp
  next
    case left
    then have sub: "subtree c (Node l a y r) = subtree c l" by simp
    have cr: "c \<notin> set (addrs r)" using left Node.prems(2) by auto
    have subl: "set (addrs (subtree c l)) \<subseteq> set (addrs l)" by (rule subtree_addrs)
    have "tree_at h' (tn_left n) (del_at c l)"
      by (rule Node.IH(1)[OF n(4) d(1) left(2)]) (use Node.prems(4,5) sub in auto)
    moreover have "h' a = h a" using Node.prems(2,5) sub subl by auto
    moreover have "tree_at h' (tn_right n) r = tree_at h (tn_right n) r"
      by (rule tree_at_frame) (use Node.prems(2,5) sub subl in auto)
    ultimately show ?thesis using left n cr by (simp add: del_at_notin)
  next
    case right
    have cl: "c \<notin> set (addrs l)" using right Node.prems(2) by auto
    with right have sub: "subtree c (Node l a y r) = subtree c r" by simp
    have subr: "set (addrs (subtree c r)) \<subseteq> set (addrs r)" by (rule subtree_addrs)
    have "tree_at h' (tn_right n) (del_at c r)"
      by (rule Node.IH(2)[OF n(5) d(2) right(2)]) (use Node.prems(4,5) sub in auto)
    moreover have "h' a = h a" using Node.prems(2,5) sub subr by auto
    moreover have "tree_at h' (tn_left n) l = tree_at h (tn_left n) l"
      by (rule tree_at_frame) (use Node.prems(2,5) sub subr in auto)
    ultimately show ?thesis using right n cl by (simp add: del_at_notin)
  qed
qed

lemma del_at_keys:
  assumes "distinct (addrs t)" "c \<in> set (addrs t)" "subtree c t = Node l c y (Node rl s z rr)"
  shows "\<exists>ks1 ks2. keys t = ks1 @ y # ks2 \<and> keys (del_at c t) = ks1 @ ks2"
  using assms
proof (induction t)
  case Leaf
  then show ?case by simp
next
  case (Node tl a ya tr)
  consider (here) "c = a" | (left) "c \<noteq> a" "c \<in> set (addrs tl)" | (right) "c \<noteq> a" "c \<in> set (addrs tr)"
    using Node.prems(2) by auto
  then show ?case
  proof cases
    case here
    with Node.prems(3) have eq: "tl = l" "ya = y" "tr = Node rl s z rr" by simp_all
    have "keys tr = min_key rl z # keys (del_min tr)"
      unfolding eq by (rule keys_del_min)
    with here eq show ?thesis by auto
  next
    case left
    then have cr: "c \<notin> set (addrs tr)" using Node.prems(1) by auto
    from Node.IH(1) left Node.prems(1,3)
    obtain ks1 ks2 where "keys tl = ks1 @ y # ks2" "keys (del_at c tl) = ks1 @ ks2" by auto
    with left cr show ?thesis by (auto simp: del_at_notin)
  next
    case right
    then have cl: "c \<notin> set (addrs tl)" using Node.prems(1) by auto
    from Node.IH(2) right cl Node.prems(1,3)
    obtain ks1 ks2 where "keys tr = ks1 @ y # ks2" "keys (del_at c tr) = ks1 @ ks2" by auto
    then have "keys (Node tl a ya tr) = (keys tl @ ya # ks1) @ y # ks2"
        "keys (del_at c (Node tl a ya tr)) = (keys tl @ ya # ks1) @ ks2"
      using right cl by (simp_all add: del_at_notin)
    then show ?thesis by blast
  qed
qed

lemma del_at_addrs:
  assumes "distinct (addrs t)" "c \<in> set (addrs t)" "subtree c t = Node l c y (Node rl s z rr)"
  shows "\<exists>as1 as2. addrs t = as1 @ min_addr rl s # as2 \<and> addrs (del_at c t) = as1 @ as2"
  using assms
proof (induction t)
  case Leaf
  then show ?case by simp
next
  case (Node tl a ya tr)
  consider (here) "c = a" | (left) "c \<noteq> a" "c \<in> set (addrs tl)" | (right) "c \<noteq> a" "c \<in> set (addrs tr)"
    using Node.prems(2) by auto
  then show ?case
  proof cases
    case here
    with Node.prems(3) have eq: "tl = l" "ya = y" "tr = Node rl s z rr" by simp_all
    have "addrs tr = min_addr rl s # addrs (del_min tr)"
      unfolding eq by (rule addrs_del_min)
    then have "addrs (Node tl a ya tr) = (addrs tl @ [a]) @ min_addr rl s # addrs (del_min tr)"
       "addrs (del_at c (Node tl a ya tr)) = (addrs tl @ [a]) @ addrs (del_min tr)"
      using here by simp_all
    then show ?thesis by blast
  next
    case left
    then have cr: "c \<notin> set (addrs tr)" using Node.prems(1) by auto
    from Node.IH(1) left Node.prems(1,3)
    obtain as1 as2 where "addrs tl = as1 @ min_addr rl s # as2" "addrs (del_at c tl) = as1 @ as2" by auto
    with left cr show ?thesis by (auto simp: del_at_notin)
  next
    case right
    then have cl: "c \<notin> set (addrs tl)" using Node.prems(1) by auto
    from Node.IH(2) right cl Node.prems(1,3)
    obtain as1 as2 where "addrs tr = as1 @ min_addr rl s # as2" "addrs (del_at c tr) = as1 @ as2" by auto
    then have "addrs (Node tl a ya tr) = (addrs tl @ a # as1) @ min_addr rl s # as2"
        "addrs (del_at c (Node tl a ya tr)) = (addrs tl @ a # as1) @ as2"
      using right cl by (simp_all add: del_at_notin)
    then show ?thesis by blast
  qed
qed

lemma count_nodes_tree_at:
  "tree_at h p t \<Longrightarrow> count_nodes h p = Some (of_nat (length (addrs t)))"
proof (induction t arbitrary: p)
  case Leaf
  then show ?case by (simp add: count_nodes.simps)
next
  case (Node l a x r)
  then show ?case
    by (subst count_nodes.simps) (auto split: option.splits)
qed

lemma tree_remove_two_children_found:
  assumes inv: "tree_inv h T t"
    and found: "fst (remove_exit cmp x t None) = Some c"
    and c_in: "c \<in> set (addrs t)" and hc: "h c = Some n" and yn: "tn_data n = Some y"
    and ln: "tn_left n \<noteq> None" and rn: "tn_right n = Some s"
  shows "\<exists>m mp mn mpn mpn' n' h' ks1 ks2 as1 as2.
      successor_loop h s c = Some (m, mp) \<and> h m = Some mn \<and> tn_left mn = None
      \<and> h mp = Some mpn
      \<and> ds_tree_remove h (Some T) (Some x) (Some cmp)
           = Some (DS_OK, h', Some (T\<lparr>t_size := t_size T - 1\<rparr>))
      \<and> tree_inv h' (T\<lparr>t_size := t_size T - 1\<rparr>) (del_at c t)
      \<and> keys t = ks1 @ y # ks2 \<and> keys (del_at c t) = ks1 @ ks2
      \<and> addrs t = as1 @ m # as2 \<and> addrs (del_at c t) = as1 @ as2
      \<and> h' c = Some n' \<and> tn_data n' = tn_data mn \<and> tn_left n' = tn_left n
      \<and> h' m = None
      \<and> (\<forall>b. b \<noteq> c \<and> b \<noteq> m \<and> b \<noteq> mp \<longrightarrow> h' b = h b)
      \<and> h' mp = Some mpn'
      \<and> (if tn_left mpn = Some m
          then tn_left mpn' = tn_right mn \<and> tn_right mpn' = tn_right mpn
          else tn_right mpn' = tn_right mn \<and> tn_left mpn' = tn_left mpn)"
proof -
  from inv have at: "tree_at h (t_root T) t" and dist: "distinct (addrs t)"
      and dm: "dom h = set (addrs t)"
      and sz: "t_size T = of_nat (length (addrs t))"
    by (simp_all add: tree_inv_def)
  have sat: "tree_at h (Some c) (subtree c t)" by (rule subtree_at[OF at c_in])
  then obtain l y' r where sub: "subtree c t = Node l c y' r" by (auto dest: tree_at_Some)
  with sat hc yn have y': "y' = y" and atl: "tree_at h (tn_left n) l"
      and atr: "tree_at h (tn_right n) r"
    by (auto split: option.splits)
  from atl ln have lne: "l \<noteq> Leaf" by (cases l) auto
  from atr rn obtain rl z rr where r: "r = Node rl s z rr" by (auto dest: tree_at_Some)
  note sub' = sub[unfolded y' r]
  have sd: "distinct (addrs (Node l c y (Node rl s z rr)))"
    using subtree_distinct[OF dist, of c] sub' by simp
  let ?m = "min_addr rl s" and ?mp = "min_parent rl c s"
  from remove_two_children_node[OF sat[unfolded sub'] sd lne] hc
  obtain mn mpn mpn' h' where rt:
      "successor_loop h s c = Some (?m, ?mp)"
      "h ?m = Some mn" "tn_left mn = None" "tn_data mn = Some (min_key rl z)"
      "h ?mp = Some mpn"
      "remove_two_children h c n s = Some h'"
      "tree_at h' (Some c) (Node l c (min_key rl z) (del_min (Node rl s z rr)))"
      "\<forall>b. b \<noteq> c \<and> b \<noteq> ?m \<and> b \<noteq> ?mp \<longrightarrow> h' b = h b"
      "?m \<in> set (addrs (Node rl s z rr))"
      "?mp \<in> set (addrs (Node l c y (Node rl s z rr)))"
      "h' ?m = None"
      "h' c = Some (n\<lparr>tn_data := tn_data mn,
            tn_right := (if ?mp = c then tn_right mn else tn_right n)\<rparr>)"
      "h' ?mp = Some mpn'"
      "if tn_left mpn = Some ?m
          then tn_left mpn' = tn_right mn \<and> tn_right mpn' = tn_right mpn
          else tn_right mpn' = tn_right mn \<and> tn_left mpn' = tn_left mpn"
    by auto
  have frame: "\<forall>b. b \<notin> set (addrs (subtree c t)) \<longrightarrow> h' b = h b"
    using rt(8,9,10) sub' by auto
  have at': "tree_at h' (t_root T) (del_at c t)"
    by (rule del_at_lift[OF at dist c_in _ frame]) (use rt(7) sub' in simp)
  from del_at_keys[OF dist c_in sub']
  obtain ks1 ks2 where ks: "keys t = ks1 @ y # ks2" "keys (del_at c t) = ks1 @ ks2" by blast
  from del_at_addrs[OF dist c_in sub']
  obtain as1 as2 where as: "addrs t = as1 @ ?m # as2" "addrs (del_at c t) = as1 @ as2" by blast
  have dist': "distinct (addrs (del_at c t))" using dist as by auto
  have sz': "t_size T - 1 = of_nat (length (addrs (del_at c t)))"
    using sz as by simp
  have "dom h' = dom h - {?m}"
  proof (rule set_eqI)
    fix b
    show "(b \<in> dom h') = (b \<in> dom h - {?m})"
    proof (cases "b = c \<or> b = ?m \<or> b = ?mp")
      case True
      then show ?thesis using rt(11,12,13) hc rt(5) by auto
    next
      case False
      then show ?thesis using rt(8) by (auto simp: dom_def)
    qed
  qed
  then have dm': "dom h' = set (addrs (del_at c t))" using dm dist as by auto
  have inv': "tree_inv h' (T\<lparr>t_size := t_size T - 1\<rparr>) (del_at c t)"
    using at' dist' sz' dm' by (simp add: tree_inv_def)
  from found obtain parent where "remove_exit cmp x t None = (Some c, parent)"
    by (cases "remove_exit cmp x t None") auto
  then have loop: "remove_loop h cmp x (t_root T) None = Some (Some c, parent)"
    using remove_loop_exit[OF at] by simp
  have rem: "ds_tree_remove h (Some T) (Some x) (Some cmp)
           = Some (DS_OK, h', Some (T\<lparr>t_size := t_size T - 1\<rparr>))"
    using loop hc ln rn rt(6) by (auto simp add: ds_tree_remove_def)
  let ?n' = "n\<lparr>tn_data := tn_data mn, tn_right := (if ?mp = c then tn_right mn else tn_right n)\<rparr>"
  have n': "tn_data ?n' = tn_data mn" "tn_left ?n' = tn_left n" by simp_all
  show ?thesis
    apply (rule exI[of _ ?m], rule exI[of _ ?mp], rule exI[of _ mn], rule exI[of _ mpn])
    apply (rule exI[of _ mpn'], rule exI[of _ ?n'], rule exI[of _ h'])
    apply (rule exI[of _ ks1], rule exI[of _ ks2], rule exI[of _ as1], rule exI[of _ as2])
    apply (intro conjI)
    apply (rule rt(1) rt(2) rt(3) rt(5) rem inv' ks as rt(12) n' rt(11) rt(8) rt(13) rt(14))+
    done
qed

lemma tree_remove_two_children:
  assumes tw: "three_way cmp" and inv: "tree_inv h T t"
    and srt: "sorted_wrt (before cmp) (keys t)"
    and c_in: "c \<in> set (addrs t)" and hc: "h c = Some n" and yn: "tn_data n = Some y"
    and eq: "cmp x y = 0" and ln: "tn_left n \<noteq> None" and rn: "tn_right n = Some s"
  shows "\<exists>m mp mn mpn mpn' n' h' ks1 ks2 as1 as2.
      successor_loop h s c = Some (m, mp) \<and> h m = Some mn \<and> tn_left mn = None
      \<and> h mp = Some mpn
      \<and> ds_tree_remove h (Some T) (Some x) (Some cmp)
           = Some (DS_OK, h', Some (T\<lparr>t_size := t_size T - 1\<rparr>))
      \<and> tree_inv h' (T\<lparr>t_size := t_size T - 1\<rparr>) (del_at c t)
      \<and> keys t = ks1 @ y # ks2 \<and> keys (del_at c t) = ks1 @ ks2
      \<and> addrs t = as1 @ m # as2 \<and> addrs (del_at c t) = as1 @ as2
      \<and> h' c = Some n' \<and> tn_data n' = tn_data mn \<and> tn_left n' = tn_left n
      \<and> h' m = None
      \<and> (\<forall>b. b \<noteq> c \<and> b \<noteq> m \<and> b \<noteq> mp \<longrightarrow> h' b = h b)
      \<and> h' mp = Some mpn'
      \<and> (if tn_left mpn = Some m
          then tn_left mpn' = tn_right mn \<and> tn_right mpn' = tn_right mpn
          else tn_right mpn' = tn_right mn \<and> tn_left mpn' = tn_left mpn)"
proof -
  from inv have at: "tree_at h (t_root T) t" and dist: "distinct (addrs t)"
    by (simp_all add: tree_inv_def)
  have found: "fst (remove_exit cmp x t None) = Some c"
    by (rule remove_exit_found[OF tw at dist srt c_in hc yn eq])
  show ?thesis
    by (rule tree_remove_two_children_found[OF inv found c_in hc yn ln rn])
qed

lemma tree_remove_absent:
  assumes inv: "tree_inv h T t" and abs: "\<forall>y\<in>set (keys t). cmp x y \<noteq> 0"
  shows "ds_tree_remove h (Some T) (Some x) (Some cmp) = Some (DS_ERR_NOTFOUND, h, Some T)"
proof -
  from inv have at: "tree_at h (t_root T) t" by (simp add: tree_inv_def)
  from remove_exit_absent[of t cmp x None, OF abs] obtain parent where "remove_exit cmp x t None = (None, parent)"
    by (cases "remove_exit cmp x t None") auto
  then have "remove_loop h cmp x (t_root T) None = Some (None, parent)"
    using remove_loop_exit[OF at] by simp
  then show ?thesis by (simp add: ds_tree_remove_def)
qed

lemma right_child_in:
  "tree_at h p t \<Longrightarrow> distinct (addrs t) \<Longrightarrow> m \<in> set (addrs t) \<Longrightarrow> h m = Some mn
     \<Longrightarrow> tn_right mn = Some rc \<Longrightarrow> rc \<in> set (addrs t) \<and> rc \<noteq> m"
proof (induction t arbitrary: p)
  case Leaf
  then show ?case by simp
next
  case (Node l a x r)
  from Node.prems(1) obtain n where n: "h a = Some n" "tree_at h (tn_left n) l"
      "tree_at h (tn_right n) r"
    by (auto split: option.splits)
  consider (here) "m = a" | (left) "m \<noteq> a" "m \<in> set (addrs l)" | (right) "m \<noteq> a" "m \<in> set (addrs r)"
    using Node.prems(3) by auto
  then show ?case
  proof cases
    case here
    with n Node.prems(4,5) have "tree_at h (Some rc) r" by simp
    then have "rc \<in> set (addrs r)" by (rule tree_at_root_in)
    with here Node.prems(2) show ?thesis by auto
  next
    case left
    with Node.IH(1)[OF n(2) _ _ Node.prems(4,5)] Node.prems(2) show ?thesis by auto
  next
    case right
    with Node.IH(2)[OF n(3) _ _ Node.prems(4,5)] Node.prems(2) show ?thesis by auto
  qed
qed

text \<open>
  Claim C2. Let the store hold a well-formed tree whose cached size is its number of
  nodes. If the comparator is a three-way comparison of a total preorder, the in-order
  keys are strictly increasing, and the target compares equal to the payload of a node
  \<open>c\<close> with two children, then \<^verbatim>\<open>ds_tree_remove\<close> returns \<^verbatim>\<open>DS_OK\<close>; the
  successor \<open>m\<close> that the walk from \<^verbatim>\<open>current->right\<close> finds has no left child,
  its payload pointer is afterwards the payload pointer of \<open>c\<close>, \<open>m\<close> is no longer in
  the tree and its block is released; the result is again a well-formed tree, its in-order
  keys are the old ones without the removed key (so still strictly increasing), the cached
  size is one less, and so is the number of nodes. If no payload of the tree compares
  equal to the target, \<^verbatim>\<open>ds_tree_remove\<close> returns \<^verbatim>\<open>DS_ERR_NOTFOUND\<close> and leaves the
  store and the tree structure as they were.
\<close>

theorem tree_remove_correct:
  assumes "tree_inv h T t"
  shows "(three_way cmp \<and> sorted_wrt (before cmp) (keys t) \<and> c \<in> set (addrs t)
            \<and> h c = Some n \<and> tn_data n = Some y \<and> cmp x y = 0
            \<and> tn_left n \<noteq> None \<and> tn_right n = Some s
          \<longrightarrow> (\<exists>m mp mn n' h' T' t' ks1 ks2.
                successor_loop h s c = Some (m, mp) \<and> h m = Some mn \<and> tn_left mn = None
              \<and> ds_tree_remove h (Some T) (Some x) (Some cmp) = Some (DS_OK, h', Some T')
              \<and> h' c = Some n' \<and> tn_data n' = tn_data mn
              \<and> m \<in> set (addrs t) \<and> m \<notin> set (addrs t') \<and> h' m = None
              \<and> tree_inv h' T' t' \<and> sorted_wrt (before cmp) (keys t')
              \<and> keys t = ks1 @ y # ks2 \<and> keys t' = ks1 @ ks2
              \<and> t_size T' = t_size T - 1 \<and> Suc (length (addrs t')) = length (addrs t)
              \<and> count_nodes h' (t_root T') = Some (t_size T')))
       \<and> ((\<forall>k\<in>set (keys t). cmp x k \<noteq> 0)
          \<longrightarrow> ds_tree_remove h (Some T) (Some x) (Some cmp) = Some (DS_ERR_NOTFOUND, h, Some T))"
proof (intro conjI impI)
  assume hyp: "three_way cmp \<and> sorted_wrt (before cmp) (keys t) \<and> c \<in> set (addrs t)
            \<and> h c = Some n \<and> tn_data n = Some y \<and> cmp x y = 0
            \<and> tn_left n \<noteq> None \<and> tn_right n = Some s"
  then have tw: "three_way cmp" and srt: "sorted_wrt (before cmp) (keys t)"
      and c_in: "c \<in> set (addrs t)" and hc: "h c = Some n" and yn: "tn_data n = Some y"
      and eq: "cmp x y = 0" and ln: "tn_left n \<noteq> None" and rn: "tn_right n = Some s"
    by simp_all
  let ?T' = "T\<lparr>t_size := t_size T - 1\<rparr>" and ?t' = "del_at c t"
  from tree_remove_two_children[OF tw assms srt c_in hc yn eq ln rn]
  obtain m mp mn n' h' ks1 ks2 as1 as2 where r:
      "successor_loop h s c = Some (m, mp)" "h m = Some mn" "tn_left mn = None"
      "ds_tree_remove h (Some T) (Some x) (Some cmp) = Some (DS_OK, h', Some ?T')"
      "tree_inv h' ?T' ?t'"
      "keys t = ks1 @ y # ks2" "keys ?t' = ks1 @ ks2"
      "addrs t = as1 @ m # as2" "addrs ?t' = as1 @ as2"
      "h' c = Some n'" "tn_data n' = tn_data mn" "h' m = None"
    by blast
  have dist: "distinct (addrs t)" using assms by (simp add: tree_inv_def)
  have m_in: "m \<in> set (addrs t)" and m_out: "m \<notin> set (addrs ?t')"
    using dist r(8,9) by auto
  have srt': "sorted_wrt (before cmp) (keys ?t')"
    using srt r(6,7) by (auto simp: sorted_wrt_append)
  have len: "Suc (length (addrs ?t')) = length (addrs t)" using r(8,9) by simp
  have cnt: "count_nodes h' (t_root ?T') = Some (t_size ?T')"
    using r(5) by (simp add: tree_inv_def count_nodes_tree_at)
  have sz: "t_size ?T' = t_size T - 1" by simp
  show "\<exists>m mp mn n' h' T' t' ks1 ks2.
                successor_loop h s c = Some (m, mp) \<and> h m = Some mn \<and> tn_left mn = None
              \<and> ds_tree_remove h (Some T) (Some x) (Some cmp) = Some (DS_OK, h', Some T')
              \<and> h' c = Some n' \<and> tn_data n' = tn_data mn
              \<and> m \<in> set (addrs t) \<and> m \<notin> set (addrs t') \<and> h' m = None
              \<and> tree_inv h' T' t' \<and> sorted_wrt (before cmp) (keys t')
              \<and> keys t = ks1 @ y # ks2 \<and> keys t' = ks1 @ ks2
              \<and> t_size T' = t_size T - 1 \<and> Suc (length (addrs t')) = length (addrs t)
              \<and> count_nodes h' (t_root T') = Some (t_size T')"
    apply (rule exI[of _ m], rule exI[of _ mp], rule exI[of _ mn], rule exI[of _ n'])
    apply (rule exI[of _ h'], rule exI[of _ ?T'], rule exI[of _ ?t'])
    apply (rule exI[of _ ks1], rule exI[of _ ks2])
    apply (intro conjI)
    apply (rule r(1) r(2) r(3) r(4) r(10) r(11) m_in m_out r(12) r(5) srt' r(6) r(7) sz len cnt)+
    done
next
  assume "\<forall>k\<in>set (keys t). cmp x k \<noteq> 0"
  then show "ds_tree_remove h (Some T) (Some x) (Some cmp) = Some (DS_ERR_NOTFOUND, h, Some T)"
    by (rule tree_remove_absent[OF assms])
qed

lemma example_inv: "tree_inv example_store example_tree example_shape"
  by (auto simp add: tree_inv_def example_store_def example_tree_def example_shape_def)

lemma example_sorted: "sorted_wrt (before (\<lambda>a b. a - b)) (keys example_shape)"
  by (simp add: example_shape_def)

text \<open>
  The tree 50 (30, 70 (60 (-, 65), 80)): removing 50 meets both hypotheses of the first
  part, removing 55 that of the second.
\<close>

theorem tree_remove_correct_witness:
  "tree_inv example_store example_tree example_shape
   \<and> (three_way (\<lambda>a b :: int. a - b)
      \<and> sorted_wrt (before (\<lambda>a b. a - b)) (keys example_shape)
      \<and> 1 \<in> set (addrs example_shape)
      \<and> example_store 1 = Some \<lparr>tn_data = Some 50, tn_left = Some 2, tn_right = Some 3\<rparr>
      \<and> tn_data \<lparr>tn_data = Some (50::int), tn_left = Some 2, tn_right = Some 3\<rparr> = Some 50
      \<and> (50::int) - 50 = 0
      \<and> tn_left \<lparr>tn_data = Some (50::int), tn_left = Some 2, tn_right = Some 3\<rparr> \<noteq> None
      \<and> tn_right \<lparr>tn_data = Some (50::int), tn_left = Some 2, tn_right = Some 3\<rparr> = Some 3)
   \<and> (\<exists>m mp mn n' h' T' t' ks1 ks2.
          successor_loop example_store 3 1 = Some (m, mp) \<and> example_store m = Some mn
        \<and> tn_left mn = None
        \<and> ds_tree_remove example_store (Some example_tree) (Some 50) (Some (\<lambda>a b. a - b))
             = Some (DS_OK, h', Some T')
        \<and> h' 1 = Some n' \<and> tn_data n' = tn_data mn
        \<and> m \<in> set (addrs example_shape) \<and> m \<notin> set (addrs t') \<and> h' m = None
        \<and> tree_inv h' T' t' \<and> sorted_wrt (before (\<lambda>a b. a - b)) (keys t')
        \<and> keys example_shape = ks1 @ 50 # ks2 \<and> keys t' = ks1 @ ks2
        \<and> t_size T' = t_size example_tree - 1
        \<and> Suc (length (addrs t')) = length (addrs example_shape)
        \<and> count_nodes h' (t_root T') = Some (t_size T'))
   \<and> list_all (\<lambda>k. (55::int) - k \<noteq> 0) (keys example_shape)
   \<and> ds_tree_remove example_store (Some example_tree) (Some 55) (Some (\<lambda>a b. a - b))
        = Some (DS_ERR_NOTFOUND, example_store, Some example_tree)"
proof -
  have h1: "three_way (\<lambda>a b :: int. a - b)
      \<and> sorted_wrt (before (\<lambda>a b. a - b)) (keys example_shape)
      \<and> 1 \<in> set (addrs example_shape)
      \<and> example_store 1 = Some \<lparr>tn_data = Some 50, tn_left = Some 2, tn_right = Some 3\<rparr>
      \<and> tn_data \<lparr>tn_data = Some (50::int), tn_left = Some 2, tn_right = Some 3\<rparr> = Some 50
      \<and> (50::int) - 50 = 0
      \<and> tn_left \<lparr>tn_data = Some (50::int), tn_left = Some 2, tn_right = Some 3\<rparr> \<noteq> None
      \<and> tn_right \<lparr>tn_data = Some (50::int), tn_left = Some 2, tn_right = Some 3\<rparr> = Some 3"
    using three_way_minus example_sorted by (simp add: example_store_def example_shape_def)
  have h2: "\<forall>k\<in>set (keys example_shape). (55::int) - k \<noteq> 0"
    by (simp add: example_shape_def)
  note thm1 = tree_remove_correct[OF example_inv, where cmp = "\<lambda>a b. a - b" and c = 1
      and n = "\<lparr>tn_data = Some 50, tn_left = Some 2, tn_right = Some 3\<rparr>"
      and y = 50 and x = 50 and s = 3, THEN conjunct1, THEN mp, OF h1]
  note thm2 = tree_remove_correct[OF example_inv, where cmp = "\<lambda>a b. a - b" and x = 55,
      THEN conjunct2, THEN mp, OF h2]
  show ?thesis
    apply (intro conjI)
    apply (rule example_inv)
    using h1 apply simp_all[8]
    apply (rule thm1)
    apply (simp add: example_shape_def)
    apply (rule thm2)
    done
qed

text \<open>
  Claim C10. In the two-children case of \<^verbatim>\<open>ds_tree_remove\<close>, when the successor
  \<open>m\<close> has a right child \<open>rc\<close>, the link of the successor's parent \<open>mp\<close> that
  pointed to \<open>m\<close> points to \<open>rc\<close> afterwards; the nodes of the resulting tree are
  exactly the old ones without \<open>m\<close>, and every node other than the found node and
  \<open>mp\<close> is unchanged.
\<close>

theorem successor_right_child_spliced:
  assumes "three_way cmp" and "tree_inv h T t" and "sorted_wrt (before cmp) (keys t)"
    and "c \<in> set (addrs t)" and "h c = Some n" and "tn_data n = Some y" and "cmp x y = 0"
    and "tn_left n \<noteq> None" and "tn_right n = Some s"
    and "successor_loop h s c = Some (m, mp)" and "h m = Some mn" and "tn_right mn = Some rc"
    and "h mp = Some mpn"
  shows "\<exists>h' T' t' mpn'.
      ds_tree_remove h (Some T) (Some x) (Some cmp) = Some (DS_OK, h', Some T')
      \<and> h' mp = Some mpn'
      \<and> (if tn_left mpn = Some m then tn_left mpn' = Some rc else tn_right mpn' = Some rc)
      \<and> tree_inv h' T' t'
      \<and> set (addrs t') = set (addrs t) - {m}
      \<and> rc \<in> set (addrs t')
      \<and> (\<forall>b\<in>set (addrs t'). b \<noteq> c \<and> b \<noteq> mp \<longrightarrow> h' b = h b)"
proof -
  let ?T' = "T\<lparr>t_size := t_size T - 1\<rparr>" and ?t' = "del_at c t"
  from tree_remove_two_children[OF assms(1,2,3,4,5,6,7,8,9)] assms(10,11,13)
  obtain mpn' h' as1 as2 where r:
      "ds_tree_remove h (Some T) (Some x) (Some cmp) = Some (DS_OK, h', Some ?T')"
      "tree_inv h' ?T' ?t'"
      "addrs t = as1 @ m # as2" "addrs ?t' = as1 @ as2"
      "\<forall>b. b \<noteq> c \<and> b \<noteq> m \<and> b \<noteq> mp \<longrightarrow> h' b = h b"
      "h' mp = Some mpn'"
      "if tn_left mpn = Some m
          then tn_left mpn' = tn_right mn \<and> tn_right mpn' = tn_right mpn
          else tn_right mpn' = tn_right mn \<and> tn_left mpn' = tn_left mpn"
    by auto
  from assms(2) have at: "tree_at h (t_root T) t" and dist: "distinct (addrs t)"
    by (simp_all add: tree_inv_def)
  have m_in: "m \<in> set (addrs t)" using r(3) by simp
  have set': "set (addrs ?t') = set (addrs t) - {m}" using dist r(3,4) by auto
  have "rc \<in> set (addrs t) \<and> rc \<noteq> m"
    by (rule right_child_in[OF at dist m_in assms(11,12)])
  with set' have rc: "rc \<in> set (addrs ?t')" by simp
  have link: "if tn_left mpn = Some m then tn_left mpn' = Some rc else tn_right mpn' = Some rc"
    using r(7) assms(12) by (simp split: if_splits)
  have frame: "\<forall>b\<in>set (addrs ?t'). b \<noteq> c \<and> b \<noteq> mp \<longrightarrow> h' b = h b"
    using r(5) set' by auto
  show ?thesis
    apply (rule exI[of _ h'], rule exI[of _ ?T'], rule exI[of _ ?t'], rule exI[of _ mpn'])
    apply (intro conjI)
    apply (rule r(1) r(6) link r(2) set' rc frame)+
    done
qed

theorem successor_right_child_spliced_witness:
  "three_way (\<lambda>a b :: int. a - b)
   \<and> tree_inv example_store example_tree example_shape
   \<and> sorted_wrt (before (\<lambda>a b. a - b)) (keys example_shape)
   \<and> 1 \<in> set (addrs example_shape)
   \<and> example_store 1 = Some \<lparr>tn_data = Some 50, tn_left = Some 2, tn_right = Some 3\<rparr>
   \<and> (50::int) - 50 = 0
   \<and> successor_loop example_store 3 1 = Some (4, 3)
   \<and> example_store 4 = Some \<lparr>tn_data = Some 60, tn_left = None, tn_right = Some 5\<rparr>
   \<and> example_store 3 = Some \<lparr>tn_data = Some 70, tn_left = Some 4, tn_right = Some 6\<rparr>
   \<and> (\<exists>h' T' t' mpn'.
        ds_tree_remove example_store (Some example_tree) (Some 50) (Some (\<lambda>a b. a - b))
          = Some (DS_OK, h', Some T')
      \<and> h' 3 = Some mpn' \<and> tn_left mpn' = Some 5
      \<and> tree_inv h' T' t'
      \<and> set (addrs t') = set (addrs example_shape) - {4}
      \<and> 5 \<in> set (addrs t')
      \<and> (\<forall>b\<in>set (addrs t'). b \<noteq> 1 \<and> b \<noteq> 3 \<longrightarrow> h' b = example_store b))"
proof -
  have s1: "example_store 1 = Some \<lparr>tn_data = Some 50, tn_left = Some 2, tn_right = Some 3\<rparr>"
    and s4: "example_store 4 = Some \<lparr>tn_data = Some 60, tn_left = None, tn_right = Some 5\<rparr>"
    and s3: "example_store 3 = Some \<lparr>tn_data = Some 70, tn_left = Some 4, tn_right = Some 6\<rparr>"
    by (simp_all add: example_store_def)
  have c_in: "1 \<in> set (addrs example_shape)" by (simp add: example_shape_def)
  have loop: "successor_loop example_store 3 1 = Some (4, 3)"
    by (simp add: successor_loop.simps example_store_def)
  have concl: "\<exists>h' T' t' mpn'.
        ds_tree_remove example_store (Some example_tree) (Some 50) (Some (\<lambda>a b. a - b))
          = Some (DS_OK, h', Some T')
      \<and> h' 3 = Some mpn' \<and> tn_left mpn' = Some 5
      \<and> tree_inv h' T' t'
      \<and> set (addrs t') = set (addrs example_shape) - {4}
      \<and> 5 \<in> set (addrs t')
      \<and> (\<forall>b\<in>set (addrs t'). b \<noteq> 1 \<and> b \<noteq> 3 \<longrightarrow> h' b = example_store b)"
    using successor_right_child_spliced[OF three_way_minus example_inv example_sorted c_in s1
        _ _ _ _ loop s4 _ s3, where y = 50 and x = 50 and rc = 5]
    by simp
  show ?thesis
    using three_way_minus example_inv example_sorted c_in s1 loop s4 s3 concl by simp
qed

lemma cmp_int_values:
  "cmp_int 30 50 < 0" "cmp_int 70 50 > 0" "cmp_int 20 50 < 0" "cmp_int 20 30 < 0"
  "cmp_int 40 50 < 0" "cmp_int 40 30 > 0" "cmp_int 50 50 = 0"
  "\<not> cmp_int 70 50 < 0" "\<not> cmp_int 40 30 < 0" "\<not> cmp_int 50 50 < 0" "\<not> cmp_int 50 50 > 0"
  by (simp_all add: cmp_int_def)

lemma insert_step:
  assumes "tree_inv h T t" "a \<notin> set (addrs t)"
  shows "\<exists>h' T'. ds_tree_insert (Some a) h (Some T) (Some x) (Some cmp) = Some (DS_OK, h', Some T')
           \<and> tree_inv h' T' (ins cmp a x t)"
proof -
  have "h a = None" using assms by (auto simp: tree_inv_def)
  from ds_tree_insert_inv[OF assms(1) this] show ?thesis by blast
qed

lemma root_payload_tree_at:
  "tree_at h (t_root T) (Node l a x r) \<Longrightarrow> root_payload h T = Some (Some x)"
  by (auto simp: root_payload_def split: option.splits)

text \<open>
  Claim C1. Starting from the empty tree, insert 50, 30, 70, 20, 40 with \<^verbatim>\<open>cmp_int\<close>
  (every allocation succeeding, at pairwise distinct blocks) and remove 50. The removal
  returns \<^verbatim>\<open>DS_OK\<close>, the size is 4 and the in-order traversal yields 20, 30, 40, 70.
  The payload of the root is 70, the in-order successor of 50 (the leftmost node of its
  right subtree, which is the single node 70); 40 is the in-order predecessor and stays
  where it was.
\<close>

theorem tree_scenario:
  assumes "ds_tree_create True = Some T0" and "distinct [a1, a2, a3, a4, a5]"
  shows "\<exists>h T h' T'.
      insert_calls cmp_int
        [(Some a1, Some 50), (Some a2, Some 30), (Some a3, Some 70), (Some a4, Some 20),
         (Some a5, Some 40)] Map.empty T0 = Some (h, T)
    \<and> ds_tree_remove h (Some T) (Some 50) (Some cmp_int) = Some (DS_OK, h', Some T')
    \<and> root_payload h' T' = Some (Some 70)
    \<and> ds_tree_size (Some T') = 4
    \<and> inorder_walk h' (t_root T') = Some [Some 20, Some 30, Some 40, Some 70]"
proof -
  let ?t1 = "Node Leaf a1 50 Leaf"
  let ?t2 = "Node (Node Leaf a2 30 Leaf) a1 50 Leaf"
  let ?t3 = "Node (Node Leaf a2 30 Leaf) a1 50 (Node Leaf a3 70 Leaf)"
  let ?t4 = "Node (Node (Node Leaf a4 20 Leaf) a2 30 Leaf) a1 50 (Node Leaf a3 70 Leaf)"
  let ?t5 = "Node (Node (Node Leaf a4 20 Leaf) a2 30 (Node Leaf a5 40 Leaf)) a1 50
               (Node Leaf a3 70 Leaf)"
  let ?t6 = "Node (Node (Node Leaf a4 20 Leaf) a2 30 (Node Leaf a5 40 Leaf)) a1 70 Leaf"
  have inv0: "tree_inv Map.empty T0 Leaf" by (rule tree_inv_create[OF assms(1)])
  from insert_step[OF inv0, of a1 50 cmp_int]
  obtain h1 T1 where s1: "ds_tree_insert (Some a1) Map.empty (Some T0) (Some 50) (Some cmp_int)
      = Some (DS_OK, h1, Some T1)" and inv1: "tree_inv h1 T1 ?t1"
    by auto
  from insert_step[OF inv1, of a2 30 cmp_int] assms(2)
  obtain h2 T2 where s2: "ds_tree_insert (Some a2) h1 (Some T1) (Some 30) (Some cmp_int)
      = Some (DS_OK, h2, Some T2)" and inv2: "tree_inv h2 T2 ?t2"
    by (auto simp: cmp_int_values)
  from insert_step[OF inv2, of a3 70 cmp_int] assms(2)
  obtain h3 T3 where s3: "ds_tree_insert (Some a3) h2 (Some T2) (Some 70) (Some cmp_int)
      = Some (DS_OK, h3, Some T3)" and inv3: "tree_inv h3 T3 ?t3"
    by (auto simp: cmp_int_values)
  from insert_step[OF inv3, of a4 20 cmp_int] assms(2)
  obtain h4 T4 where s4: "ds_tree_insert (Some a4) h3 (Some T3) (Some 20) (Some cmp_int)
      = Some (DS_OK, h4, Some T4)" and inv4: "tree_inv h4 T4 ?t4"
    by (auto simp: cmp_int_values)
  from insert_step[OF inv4, of a5 40 cmp_int] assms(2)
  obtain h5 T5 where s5: "ds_tree_insert (Some a5) h4 (Some T4) (Some 40) (Some cmp_int)
      = Some (DS_OK, h5, Some T5)" and inv5: "tree_inv h5 T5 ?t5"
    by (auto simp: cmp_int_values)
  have run: "insert_calls cmp_int
        [(Some a1, Some 50), (Some a2, Some 30), (Some a3, Some 70), (Some a4, Some 20),
         (Some a5, Some 40)] Map.empty T0 = Some (h5, T5)"
    using s1 s2 s3 s4 s5 by simp
  from inv5 obtain n where n: "h5 a1 = Some n" "tn_data n = Some 50" "tn_left n = Some a2"
      "tn_right n = Some a3" and sz5: "t_size T5 = 5"
    by (auto simp: tree_inv_def split: option.splits)
  have found: "fst (remove_exit cmp_int 50 ?t5 None) = Some a1"
    by (simp add: cmp_int_values)
  from tree_remove_two_children_found[OF inv5 found _ n(1,2) _ n(4)] n(3)
  obtain h' where rem: "ds_tree_remove h5 (Some T5) (Some 50) (Some cmp_int)
        = Some (DS_OK, h', Some (T5\<lparr>t_size := t_size T5 - 1\<rparr>))"
      and inv6: "tree_inv h' (T5\<lparr>t_size := t_size T5 - 1\<rparr>) (del_at a1 ?t5)"
    by auto
  have del: "del_at a1 ?t5 = ?t6" by simp
  from inv6 have at6: "tree_at h' (t_root (T5\<lparr>t_size := t_size T5 - 1\<rparr>)) ?t6"
    unfolding del by (simp add: tree_inv_def)
  have root: "root_payload h' (T5\<lparr>t_size := t_size T5 - 1\<rparr>) = Some (Some 70)"
    by (rule root_payload_tree_at[OF at6])
  have size: "ds_tree_size (Some (T5\<lparr>t_size := t_size T5 - 1\<rparr>)) = 4"
    using sz5 by (simp add: ds_tree_size_def)
  have walk: "inorder_walk h' (t_root (T5\<lparr>t_size := t_size T5 - 1\<rparr>))
      = Some [Some 20, Some 30, Some 40, Some 70]"
    using inorder_walk_tree_at[OF at6] by simp
  from run rem root size walk show ?thesis by blast
qed

theorem tree_scenario_witness:
  "ds_tree_create True = Some \<lparr>t_root = None, t_size = 0\<rparr>
   \<and> distinct [1, 2, 3, 4, 5 :: addr]
   \<and> (\<exists>h T h' T'.
      insert_calls cmp_int
        [(Some 1, Some 50), (Some 2, Some 30), (Some 3, Some 70), (Some 4, Some 20),
         (Some 5, Some 40)] Map.empty \<lparr>t_root = None, t_size = 0\<rparr> = Some (h, T)
    \<and> ds_tree_remove h (Some T) (Some 50) (Some cmp_int) = Some (DS_OK, h', Some T')
    \<and> root_payload h' T' = Some (Some 70)
    \<and> ds_tree_size (Some T') = 4
    \<and> inorder_walk h' (t_root T') = Some [Some 20, Some 30, Some 40, Some 70])"
proof -
  have c: "ds_tree_create True = Some \<lparr>t_root = None, t_size = 0\<rparr>"
    by (simp add: ds_tree_create_def)
  have d: "distinct [1, 2, 3, 4, 5 :: addr]" by simp
  from tree_scenario[OF c d] c d show ?thesis by blast
qed

text \<open>
  The scenario of claim C1 with the blocks 1 to 5: the payload of the root after the
  removal is 70, and it is not 40.
\<close>

theorem tree_scenario_root_is_70:
  "scenario_root_payload = Some (Some 70) \<and> scenario_root_payload \<noteq> Some (Some 40)"
  unfolding scenario_root_payload_def scenario_result_def
  by code_simp

text \<open>
  Claim C6. Let the tree be built from the empty tree by \<^verbatim>\<open>ds_tree_insert\<close> calls
  under a comparator that is a three-way comparison of a total preorder, and let the
  payload \<open>x\<close> compare equal to a payload \<open>y\<close> of the tree. Then
  \<^verbatim>\<open>ds_tree_insert\<close> of \<open>x\<close> leaves the store and the tree structure (root and
  size) exactly as they were; it returns \<^verbatim>\<open>DS_OK\<close> when the node allocation, which
  comes before the search, succeeds, and \<^verbatim>\<open>DS_ERR_OOM\<close> when it fails.
\<close>

theorem duplicate_insert_no_op:
  assumes "three_way cmp" and "ds_tree_create ok = Some T0"
    and "allocs_fresh cmp calls Map.empty T0"
    and "insert_calls cmp calls Map.empty T0 = Some (h, T)"
    and "inorder_walk h (t_root T) = Some ks" and "Some y \<in> set ks" and "cmp x y = 0"
    and "case new of None \<Rightarrow> True | Some a \<Rightarrow> h a = None"
  shows "ds_tree_insert new h (Some T) (Some x) (Some cmp)
           = Some (if new = None then DS_ERR_OOM else DS_OK, h, Some T)"
proof -
  from insert_calls_inv[OF assms(1) tree_inv_create[OF assms(2)] _ assms(3)] assms(4)
  obtain t where inv: "tree_inv h T t" and srt: "sorted_wrt (before cmp) (keys t)"
    by auto
  have "inorder_walk h (t_root T) = Some (map Some (keys t))"
    using inv by (simp add: tree_inv_def inorder_walk_tree_at)
  with assms(5,6) have mem: "y \<in> set (keys t)" by auto
  show ?thesis
  proof (cases new)
    case None
    then show ?thesis by (simp add: ds_tree_insert_def)
  next
    case (Some a)
    with assms(8) have fresh: "h a = None" by simp
    have "ins_exit cmp x t None = Equal_Key"
      by (rule ins_exit_member[OF assms(1) srt mem assms(7)])
    with ds_tree_insert_inv[OF inv fresh, of x cmp] Some show ?thesis by auto
  qed
qed

theorem duplicate_insert_no_op_witness:
  "three_way (\<lambda>a b :: int. a - b)
   \<and> ds_tree_create True = Some \<lparr>t_root = None, t_size = 0\<rparr>
   \<and> allocs_fresh (\<lambda>a b. a - b) [(Some 1, Some 50), (Some 2, Some 30)] Map.empty
        \<lparr>t_root = None, t_size = 0\<rparr>
   \<and> insert_calls (\<lambda>a b. a - b) [(Some 1, Some 50), (Some 2, Some 30)] Map.empty
        \<lparr>t_root = None, t_size = 0\<rparr>
      = Some ([1 \<mapsto> \<lparr>tn_data = Some 50, tn_left = Some 2, tn_right = None\<rparr>,
               2 \<mapsto> \<lparr>tn_data = Some 30, tn_left = None, tn_right = None\<rparr>],
              \<lparr>t_root = Some 1, t_size = 2\<rparr>)
   \<and> inorder_walk
        [(1::addr) \<mapsto> \<lparr>tn_data = Some (50::int), tn_left = Some 2, tn_right = None\<rparr>,
         2 \<mapsto> \<lparr>tn_data = Some 30, tn_left = None, tn_right = None\<rparr>]
        (t_root \<lparr>t_root = Some 1, t_size = 2\<rparr>)
      = Some [Some 30, Some 50]
   \<and> Some (30::int) \<in> set [Some 30, Some 50]
   \<and> (30::int) - 30 = 0
   \<and> [(1::addr) \<mapsto> \<lparr>tn_data = Some (50::int), tn_left = Some 2, tn_right = None\<rparr>,
       2 \<mapsto> \<lparr>tn_data = Some 30, tn_left = None, tn_right = None\<rparr>] 3 = None
   \<and> ds_tree_insert (Some 3)
        [1 \<mapsto> \<lparr>tn_data = Some 50, tn_left = Some 2, tn_right = None\<rparr>,
         2 \<mapsto> \<lparr>tn_data = Some 30, tn_left = None, tn_right = None\<rparr>]
        (Some \<lparr>t_root = Some 1, t_size = 2\<rparr>) (Some (30::int)) (Some (\<lambda>a b. a - b))
      = Some (DS_OK,
              [1 \<mapsto> \<lparr>tn_data = Some 50, tn_left = Some 2, tn_right = None\<rparr>,
               2 \<mapsto> \<lparr>tn_data = Some 30, tn_left = None, tn_right = None\<rparr>],
              Some \<lparr>t_root = Some 1, t_size = 2\<rparr>)"
proof -
  let ?h = "[(1::addr) \<mapsto> \<lparr>tn_data = Some (50::int), tn_left = Some 2, tn_right = None\<rparr>,
             2 \<mapsto> \<lparr>tn_data = Some 30, tn_left = None, tn_right = None\<rparr>]"
  let ?T = "\<lparr>t_root = Some 1, t_size = 2\<rparr>"
  let ?E = "\<lparr>t_root = None, t_size = 0\<rparr>"
  let ?calls = "[(Some (1::addr), Some (50::int)), (Some 2, Some 30)]"
  have c: "ds_tree_create True = Some ?E" by (simp add: ds_tree_create_def)
  have run: "insert_calls (\<lambda>a b. a - b) ?calls Map.empty ?E = Some (?h, ?T)"
    by (auto simp add: ds_tree_insert_def insert_loop.simps fun_eq_iff)
  have f: "allocs_fresh (\<lambda>a b. a - b) ?calls Map.empty ?E"
    by (simp add: ds_tree_insert_def insert_loop.simps)
  have w: "inorder_walk ?h (t_root ?T) = Some [Some 30, Some 50]"
    by (simp add: inorder_walk.simps)
  have m: "Some (30::int) \<in> set [Some 30, Some 50]" by simp
  have e: "(\<lambda>a b :: int. a - b) 30 30 = 0" by simp
  have fr: "case Some (3::addr) of None \<Rightarrow> True | Some a \<Rightarrow> ?h a = None" by simp
  have e': "(30::int) - 30 = 0" and fr': "?h 3 = None" by simp_all
  have concl: "ds_tree_insert (Some 3) ?h (Some ?T) (Some 30) (Some (\<lambda>a b. a - b))
      = Some (DS_OK, ?h, Some ?T)"
    using duplicate_insert_no_op[OF three_way_minus c f run w m e fr]
    by (simp only: option.distinct if_False)
  show ?thesis
    apply (intro conjI)
    apply (rule three_way_minus c f run w m e' fr' concl)+
    done
qed

text \<open>
  A duplicate insert whose allocation fails: the tree holding 50 alone is built by one
  successful insertion, 50 compares equal to 50, and inserting 50 again with a failing
  allocation returns \<^verbatim>\<open>DS_ERR_OOM\<close>, not \<^verbatim>\<open>DS_OK\<close>.
\<close>

theorem duplicate_insert_out_of_memory:
  "ds_tree_insert (Some 1) Map.empty (Some \<lparr>t_root = None, t_size = 0\<rparr>) (Some (50::int))
       (Some (\<lambda>a b. a - b))
     = Some (DS_OK, [1 \<mapsto> \<lparr>tn_data = Some 50, tn_left = None, tn_right = None\<rparr>],
             Some \<lparr>t_root = Some 1, t_size = 1\<rparr>)
   \<and> (50::int) - 50 = 0
   \<and> ds_tree_insert None [1 \<mapsto> \<lparr>tn_data = Some 50, tn_left = None, tn_right = None\<rparr>]
       (Some \<lparr>t_root = Some 1, t_size = 1\<rparr>) (Some (50::int)) (Some (\<lambda>a b. a - b))
     = Some (DS_ERR_OOM, [1 \<mapsto> \<lparr>tn_data = Some 50, tn_left = None, tn_right = None\<rparr>],
             Some \<lparr>t_root = Some 1, t_size = 1\<rparr>)"
  by (simp add: ds_tree_insert_def)


section \<open>Properties of the list, the stack and the queue\<close>

lemma list_at_frame:
  "\<forall>a\<in>set (map fst xs). h' a = h a \<Longrightarrow> list_at h' p xs = list_at h p xs"
  by (induction xs arbitrary: p) (auto split: option.splits)

lemma list_at_append_new:
  assumes "list_at h p xs" "xs \<noteq> []" "distinct (map fst xs)" "a \<notin> set (map fst xs)"
    "h (fst (last xs)) = Some tn"
  shows "list_at (h(a \<mapsto> \<lparr>ln_data = Some x, ln_next = None\<rparr>,
                    fst (last xs) \<mapsto> tn\<lparr>ln_next := Some a\<rparr>)) p (xs @ [(a, x)])"
  using assms
proof (induction xs arbitrary: p)
  case Nil
  then show ?case by simp
next
  case (Cons b xs)
  obtain c y where b: "b = (c, y)" by (cases b)
  from Cons.prems(1) b obtain n where n: "p = Some c" "h c = Some n" "ln_data n = Some y"
      "list_at h (ln_next n) xs"
    by (auto split: option.splits)
  show ?case
  proof (cases xs)
    case Nil
    with n b Cons.prems show ?thesis by auto
  next
    case (Cons b' xs')
    then have ne: "xs \<noteq> []" by simp
    with Cons.prems b have "last (b # xs) = last xs" "c \<noteq> fst (last xs)" "a \<noteq> c"
      by auto
    with Cons.IH[OF n(4) ne] Cons.prems b n show ?thesis by auto
  qed
qed

lemma push_back_inv:
  assumes inv: "list_inv h l xs" and fresh: "h a = None"
  shows "\<exists>h' l'. ds_list_push_back (Some a) h (Some l) (Some x) = Some (DS_OK, h', Some l')
           \<and> list_inv h' l' (xs @ [(a, x)])"
proof -
  from inv have at: "list_at h (l_head l) xs" and dist: "distinct (map fst xs)"
      and dm: "dom h = set (map fst xs)"
      and tl: "l_tail l = (if xs = [] then None else Some (fst (last xs)))"
      and sz: "l_size l = of_nat (length xs)"
    by (simp_all add: list_inv_def)
  have notin: "a \<notin> set (map fst xs)" using dm fresh by auto
  show ?thesis
  proof (cases "xs = []")
    case True
    with tl sz dm show ?thesis
      by (simp add: ds_list_push_back_def list_inv_def)
  next
    case False
    let ?lt = "fst (last xs)"
    have lt_in: "?lt \<in> set (map fst xs)" using False by simp
    then obtain tn where tn: "h ?lt = Some tn" using dm by auto
    have lta: "?lt \<noteq> a" using lt_in notin by auto
    let ?h' = "h(a \<mapsto> \<lparr>ln_data = Some x, ln_next = None\<rparr>, ?lt \<mapsto> tn\<lparr>ln_next := Some a\<rparr>)"
    have at': "list_at ?h' (l_head l) (xs @ [(a, x)])"
      by (rule list_at_append_new[OF at False dist notin tn])
    have dm': "dom ?h' = set (map fst (xs @ [(a, x)]))" using dm lt_in by auto
    have "list_inv ?h' (l\<lparr>l_tail := Some a, l_size := l_size l + 1\<rparr>) (xs @ [(a, x)])"
      using at' dist notin dm' sz by (simp add: list_inv_def)
    moreover have "ds_list_push_back (Some a) h (Some l) (Some x)
        = Some (DS_OK, ?h', Some (l\<lparr>l_tail := Some a, l_size := l_size l + 1\<rparr>))"
      using tl False tn lta by (simp add: ds_list_push_back_def Let_def)
    ultimately show ?thesis by blast
  qed
qed

lemma pop_front_inv:
  assumes inv: "list_inv h l ((a, x) # xs)"
  shows "\<exists>h' l'. ds_list_pop_front h (Some l) = Some (Some x, h', Some l') \<and> list_inv h' l' xs"
proof -
  from inv obtain n where hd: "l_head l = Some a" and n: "h a = Some n" "ln_data n = Some x"
      "list_at h (ln_next n) xs"
      and dist: "distinct (map fst ((a, x) # xs))"
      and dm: "dom h = set (map fst ((a, x) # xs))"
      and tl: "l_tail l = Some (fst (last ((a, x) # xs)))"
      and sz: "l_size l = of_nat (length ((a, x) # xs))"
    by (auto simp: list_inv_def split: option.splits)
  let ?h' = "h(a := None)"
  let ?l' = "l\<lparr>l_head := ln_next n, l_tail := (if ln_next n = None then None else l_tail l),
               l_size := l_size l - 1\<rparr>"
  have "list_at ?h' (ln_next n) xs = list_at h (ln_next n) xs"
    by (rule list_at_frame) (use dist in auto)
  with n(3) have at': "list_at ?h' (ln_next n) xs" by simp
  have nx: "(ln_next n = None) = (xs = [])" using n(3) by (cases xs) auto
  have "list_inv ?h' ?l' xs"
    using at' dist dm tl sz nx by (auto simp: list_inv_def)
  moreover have "ds_list_pop_front h (Some l) = Some (Some x, ?h', Some ?l')"
    using hd n by (simp add: ds_list_pop_front_def)
  ultimately show ?thesis by blast
qed

lemma pop_front_all_inv: "list_inv h l xs \<Longrightarrow> pop_front_all h l = Some (map snd xs)"
proof (induction xs arbitrary: h l)
  case Nil
  then have "l_head l = None" by (simp add: list_inv_def)
  then show ?case
    by (subst pop_front_all.simps) (simp add: ds_list_pop_front_def)
next
  case (Cons b xs)
  obtain a x where b: "b = (a, x)" by (cases b)
  from pop_front_inv[OF Cons.prems[unfolded b]]
  obtain h' l' where pop: "ds_list_pop_front h (Some l) = Some (Some x, h', Some l')"
      and inv': "list_inv h' l' xs"
    by blast
  from Cons.IH[OF inv'] pop b show ?case
    by (subst pop_front_all.simps) simp
qed

lemma push_back_all_inv:
  "list_inv h l xs \<Longrightarrow> distinct (map fst ps) \<Longrightarrow> set (map fst ps) \<inter> set (map fst xs) = {}
     \<Longrightarrow> \<exists>h' l'. push_back_all ps h l = Some (h', l') \<and> list_inv h' l' (xs @ ps)"
proof (induction ps arbitrary: h l xs)
  case Nil
  then show ?case by simp
next
  case (Cons b ps)
  obtain a x where b: "b = (a, x)" by (cases b)
  have fresh: "h a = None" using Cons.prems(1,3) b by (auto simp: list_inv_def)
  from push_back_inv[OF Cons.prems(1) fresh, of x]
  obtain h1 l1 where step: "ds_list_push_back (Some a) h (Some l) (Some x) = Some (DS_OK, h1, Some l1)"
      and inv1: "list_inv h1 l1 (xs @ [(a, x)])"
    by blast
  have "\<exists>h' l'. push_back_all ps h1 l1 = Some (h', l') \<and> list_inv h' l' ((xs @ [(a, x)]) @ ps)"
    by (rule Cons.IH[OF inv1]) (use Cons.prems(2,3) b in auto)
  with step b show ?case by simp
qed

text \<open>
  Claim C8. Push any finite sequence of (non-null) payloads onto the empty list with
  \<^verbatim>\<open>ds_list_push_back\<close>, each allocation returning a block of its own; then calling
  \<^verbatim>\<open>ds_list_pop_front\<close> until it returns \<^verbatim>\<open>NULL\<close> terminates and yields exactly
  those payloads, in the order they were pushed.
\<close>

theorem list_fifo:
  assumes "ds_list_create ok = Some L0" and "distinct (map fst ps)"
  shows "\<exists>h l. push_back_all ps Map.empty L0 = Some (h, l)
           \<and> pop_front_all h l = Some (map snd ps)"
proof -
  from assms(1) have "list_inv Map.empty L0 []"
    by (auto simp: ds_list_create_def list_inv_def split: if_splits)
  from push_back_all_inv[OF this assms(2)]
  obtain h l where "push_back_all ps Map.empty L0 = Some (h, l)" "list_inv h l ps"
    by auto
  then show ?thesis using pop_front_all_inv by blast
qed

theorem list_fifo_witness:
  "ds_list_create True = Some \<lparr>l_head = None, l_tail = None, l_size = 0\<rparr>
   \<and> distinct (map fst [(4::addr, 10::int), (2, 20), (7, 30)])
   \<and> (\<exists>h l. push_back_all [(4, 10::int), (2, 20), (7, 30)] Map.empty
                \<lparr>l_head = None, l_tail = None, l_size = 0\<rparr> = Some (h, l)
           \<and> pop_front_all h l = Some [10, 20, 30])"
proof -
  have c: "ds_list_create True = Some \<lparr>l_head = None, l_tail = None, l_size = 0\<rparr>"
    by (simp add: ds_list_create_def)
  have d: "distinct (map fst [(4::addr, 10::int), (2, 20), (7, 30)])" by simp
  from list_fifo[OF c d] c d show ?thesis by simp
qed

lemma list_remove_loop_failed:
  assumes "list_remove_loop h l d f current previous = Some r"
  shows "fst r \<noteq> DS_OK \<longrightarrow> r = (fst r, h, Some l)"
  using assms
  by (rule list_remove_loop.raw_induct
        [where P = "\<lambda>h l d f current previous r. fst r \<noteq> DS_OK \<longrightarrow> r = (fst r, h, Some l)",
         rotated])
     (auto split: option.splits if_splits)

lemma list_remove_failed:
  "ds_list_remove h L d c = Some (e, h', L') \<Longrightarrow> e \<noteq> DS_OK \<Longrightarrow> h' = h \<and> L' = L"
  using list_remove_loop_failed
  by (fastforce simp: ds_list_remove_def split: option.splits)

lemma tree_insert_failed:
  "ds_tree_insert new h T d c = Some (e, h', T') \<Longrightarrow> e \<noteq> DS_OK \<Longrightarrow> h' = h \<and> T' = T"
  by (auto simp: ds_tree_insert_def Let_def split: option.splits insert_exit.splits)

lemma tree_remove_failed:
  "ds_tree_remove h T d c = Some (e, h', T') \<Longrightarrow> e \<noteq> DS_OK \<Longrightarrow> h' = h \<and> T' = T"
  by (auto simp: ds_tree_remove_def Let_def split: option.splits if_splits)

lemma list_push_back_failed:
  "ds_list_push_back new h L d = Some (e, h', L') \<Longrightarrow> e \<noteq> DS_OK \<Longrightarrow> h' = h \<and> L' = L"
  by (auto simp: ds_list_push_back_def Let_def split: option.splits)

lemma queue_enqueue_failed:
  "ds_queue_enqueue new h Q d = Some (e, h', Q') \<Longrightarrow> e \<noteq> DS_OK \<Longrightarrow> h' = h \<and> Q' = Q"
  by (auto simp: ds_queue_enqueue_def Let_def split: option.splits)

lemma list_push_front_failed:
  "ds_list_push_front new h L d = (e, h', L') \<Longrightarrow> e \<noteq> DS_OK \<Longrightarrow> h' = h \<and> L' = L"
  by (auto simp: ds_list_push_front_def split: option.splits)

lemma stack_push_failed:
  "ds_stack_push new h S d = (e, h', S') \<Longrightarrow> e \<noteq> DS_OK \<Longrightarrow> h' = h \<and> S' = S"
  by (auto simp: ds_stack_push_def split: option.splits)

text \<open>
  Claim C5. With a live container and a non-null payload (and comparator), a failed node
  allocation makes \<^verbatim>\<open>ds_list_push_front\<close>, \<^verbatim>\<open>ds_list_push_back\<close>,
  \<^verbatim>\<open>ds_stack_push\<close>, \<^verbatim>\<open>ds_queue_enqueue\<close> and \<^verbatim>\<open>ds_tree_insert\<close> return
  \<^verbatim>\<open>DS_ERR_OOM\<close> with the store and the container structure as they were. More
  generally, whenever one of these operations, \<^verbatim>\<open>ds_list_remove\<close> or
  \<^verbatim>\<open>ds_tree_remove\<close> returns a status other than \<^verbatim>\<open>DS_OK\<close>, the store and the
  structure are exactly as before the call; and \<^verbatim>\<open>ds_list_pop_front\<close>,
  \<^verbatim>\<open>ds_stack_pop\<close> and \<^verbatim>\<open>ds_queue_dequeue\<close> on a null or empty container return
  \<^verbatim>\<open>NULL\<close> and change nothing.
\<close>

theorem allocation_failure_leaves_container:
  "(ds_list_push_front None hl (Some l) (Some d) = (DS_ERR_OOM, hl, Some l))
   \<and> (ds_list_push_back None hl (Some l) (Some d) = Some (DS_ERR_OOM, hl, Some l))
   \<and> (ds_stack_push None hs (Some s) (Some d) = (DS_ERR_OOM, hs, Some s))
   \<and> (ds_queue_enqueue None hq (Some q) (Some d) = Some (DS_ERR_OOM, hq, Some q))
   \<and> (ds_tree_insert None ht (Some t) (Some d) (Some f) = Some (DS_ERR_OOM, ht, Some t))
   \<and> (ds_list_push_front new hl L data = (e, hl', L') \<and> e \<noteq> DS_OK \<longrightarrow> hl' = hl \<and> L' = L)
   \<and> (ds_list_push_back new hl L data = Some (e, hl', L') \<and> e \<noteq> DS_OK \<longrightarrow> hl' = hl \<and> L' = L)
   \<and> (ds_list_remove hl L data cmp = Some (e, hl', L') \<and> e \<noteq> DS_OK \<longrightarrow> hl' = hl \<and> L' = L)
   \<and> (ds_stack_push new hs S data = (e, hs', S') \<and> e \<noteq> DS_OK \<longrightarrow> hs' = hs \<and> S' = S)
   \<and> (ds_queue_enqueue new hq Q data = Some (e, hq', Q') \<and> e \<noteq> DS_OK \<longrightarrow> hq' = hq \<and> Q' = Q)
   \<and> (ds_tree_insert new ht T data cmp = Some (e, ht', T') \<and> e \<noteq> DS_OK \<longrightarrow> ht' = ht \<and> T' = T)
   \<and> (ds_tree_remove ht T data cmp = Some (e, ht', T') \<and> e \<noteq> DS_OK \<longrightarrow> ht' = ht \<and> T' = T)
   \<and> ((case L of None \<Rightarrow> True | Some l \<Rightarrow> l_head l = None)
        \<longrightarrow> ds_list_pop_front hl L = Some (None, hl, L))
   \<and> ((case S of None \<Rightarrow> True | Some s \<Rightarrow> s_top s = None)
        \<longrightarrow> ds_stack_pop hs S = Some (None, hs, S))
   \<and> ((case Q of None \<Rightarrow> True | Some q \<Rightarrow> q_front q = None)
        \<longrightarrow> ds_queue_dequeue hq Q = Some (None, hq, Q))"
  apply (intro conjI impI)
  apply (simp add: ds_list_push_front_def)
  apply (simp add: ds_list_push_back_def)
  apply (simp add: ds_stack_push_def)
  apply (simp add: ds_queue_enqueue_def)
  apply (simp add: ds_tree_insert_def)
  apply (blast dest: list_push_front_failed)+
  apply (blast dest: list_push_back_failed)+
  apply (blast dest: list_remove_failed)+
  apply (blast dest: stack_push_failed)+
  apply (blast dest: queue_enqueue_failed)+
  apply (blast dest: tree_insert_failed)+
  apply (blast dest: tree_remove_failed)+
  apply (cases L; simp add: ds_list_pop_front_def)
  apply (cases S; simp add: ds_stack_pop_def)
  apply (cases Q; simp add: ds_queue_dequeue_def)
  done

theorem allocation_failure_leaves_container_witness:
  "ds_list_push_front None Map.empty (Some \<lparr>l_head = None, l_tail = None, l_size = 0\<rparr>) (Some (7::int))
     = (DS_ERR_OOM, Map.empty, Some \<lparr>l_head = None, l_tail = None, l_size = 0\<rparr>)
   \<and> ds_list_push_back None Map.empty (Some \<lparr>l_head = None, l_tail = None, l_size = 0\<rparr>) (Some (7::int))
     = Some (DS_ERR_OOM, Map.empty, Some \<lparr>l_head = None, l_tail = None, l_size = 0\<rparr>)
   \<and> ds_list_remove [(1::addr) \<mapsto> \<lparr>ln_data = Some (10::int), ln_next = None\<rparr>]
       (Some \<lparr>l_head = Some 1, l_tail = Some 1, l_size = 1\<rparr>) (Some 99) (Some (\<lambda>a b. a - b))
     = Some (DS_ERR_NOTFOUND, [(1::addr) \<mapsto> \<lparr>ln_data = Some (10::int), ln_next = None\<rparr>],
             Some \<lparr>l_head = Some 1, l_tail = Some 1, l_size = 1\<rparr>)
   \<and> ds_stack_push None Map.empty (Some \<lparr>s_top = None, s_size = 0\<rparr>) (Some (7::int))
     = (DS_ERR_OOM, Map.empty, Some \<lparr>s_top = None, s_size = 0\<rparr>)
   \<and> ds_queue_enqueue None Map.empty (Some \<lparr>q_front = None, q_rear = None, q_size = 0\<rparr>) (Some (7::int))
     = Some (DS_ERR_OOM, Map.empty, Some \<lparr>q_front = None, q_rear = None, q_size = 0\<rparr>)
   \<and> ds_tree_insert None Map.empty (Some \<lparr>t_root = None, t_size = 0\<rparr>) (Some (7::int)) (Some (\<lambda>a b. a - b))
     = Some (DS_ERR_OOM, Map.empty, Some \<lparr>t_root = None, t_size = 0\<rparr>)
   \<and> ds_tree_remove Map.empty (Some \<lparr>t_root = None, t_size = 0\<rparr>) (Some (7::int)) (Some (\<lambda>a b. a - b))
     = Some (DS_ERR_NOTFOUND, Map.empty, Some \<lparr>t_root = None, t_size = 0\<rparr>)
   \<and> ds_list_pop_front (Map.empty :: int list_store)
       (Some \<lparr>l_head = None, l_tail = None, l_size = 0\<rparr>)
     = Some (None, Map.empty, Some \<lparr>l_head = None, l_tail = None, l_size = 0\<rparr>)
   \<and> ds_stack_pop (Map.empty :: int stack_store) (Some \<lparr>s_top = None, s_size = 0\<rparr>)
     = Some (None, Map.empty, Some \<lparr>s_top = None, s_size = 0\<rparr>)
   \<and> ds_queue_dequeue (Map.empty :: int queue_store)
       (Some \<lparr>q_front = None, q_rear = None, q_size = 0\<rparr>)
     = Some (None, Map.empty, Some \<lparr>q_front = None, q_rear = None, q_size = 0\<rparr>)
   \<and> DS_ERR_OOM \<noteq> DS_OK \<and> DS_ERR_NOTFOUND \<noteq> DS_OK"
  using allocation_failure_leaves_container
    [where new = None and data = "Some (7::int)" and cmp = "Some (\<lambda>a b. a - b)"
       and hl = Map.empty and L = "Some \<lparr>l_head = None, l_tail = None, l_size = 0\<rparr>"
       and hs = Map.empty and S = "Some \<lparr>s_top = None, s_size = 0\<rparr>"
       and hq = Map.empty and Q = "Some \<lparr>q_front = None, q_rear = None, q_size = 0\<rparr>"
       and ht = Map.empty and T = "Some \<lparr>t_root = None, t_size = 0\<rparr>"
       and e = DS_ERR_OOM]
  by (simp add: ds_list_push_front_def ds_list_push_back_def ds_list_remove_def
      list_remove_loop.simps ds_stack_push_def ds_queue_enqueue_def ds_tree_insert_def
      ds_tree_remove_def remove_loop.simps ds_list_pop_front_def ds_stack_pop_def
      ds_queue_dequeue_def)

text \<open>
  Claim C7. On a null handle every operation returns without reading the store: the
  teardown functions, the pushes, \<^verbatim>\<open>ds_queue_enqueue\<close>, \<^verbatim>\<open>ds_tree_insert\<close> and
  the removals return \<^verbatim>\<open>DS_ERR_NULLARG\<close>; pop, dequeue, peek and find return
  \<^verbatim>\<open>NULL\<close>; size returns 0 and is-empty returns 1; visualize writes one line that
  says so, to \<^verbatim>\<open>stdout\<close> when the stream is null too. The store is unchanged in every
  case, and \<^verbatim>\<open>free\<close> on a null handle releases no node and calls the destructor on
  nothing (the caller's world \<open>w\<close> is unchanged).
\<close>

theorem null_handle_operations:
  "ds_list_free hl None free_data w = Some (DS_ERR_NULLARG, hl, w)
   \<and> ds_list_push_front new hl None d = (DS_ERR_NULLARG, hl, None)
   \<and> ds_list_push_back new hl None d = Some (DS_ERR_NULLARG, hl, None)
   \<and> ds_list_pop_front hl None = Some (None, hl, None)
   \<and> ds_list_remove hl None d cmp = Some (DS_ERR_NULLARG, hl, None)
   \<and> ds_list_find hl None d cmp = Some None
   \<and> ds_list_size None = 0
   \<and> ds_stack_free hs None free_data w = Some (DS_ERR_NULLARG, hs, w)
   \<and> ds_stack_push new hs None d = (DS_ERR_NULLARG, hs, None)
   \<and> ds_stack_pop hs None = Some (None, hs, None)
   \<and> ds_stack_peek hs None = Some None
   \<and> ds_stack_is_empty None = 1
   \<and> ds_stack_size None = 0
   \<and> ds_queue_free hq None free_data w = Some (DS_ERR_NULLARG, hq, w)
   \<and> ds_queue_enqueue new hq None d = Some (DS_ERR_NULLARG, hq, None)
   \<and> ds_queue_dequeue hq None = Some (None, hq, None)
   \<and> ds_queue_peek hq None = Some None
   \<and> ds_queue_is_empty None = 1
   \<and> ds_queue_size None = 0
   \<and> ds_tree_free ht None free_data w = Some (DS_ERR_NULLARG, ht, w)
   \<and> ds_tree_insert new ht None d cmp = Some (DS_ERR_NULLARG, ht, None)
   \<and> ds_tree_find ht None d cmp = Some None
   \<and> ds_tree_remove ht None d cmp = Some (DS_ERR_NULLARG, ht, None)
   \<and> ds_tree_size None = 0
   \<and> ds_tree_is_empty None = 1
   \<and> ds_list_visualize as_int hl None out
       = Some (default_stdout out, ''List: NULL'' @ [newline])
   \<and> ds_stack_visualize as_int hs None out
       = Some (default_stdout out, ''Stack: NULL'' @ [newline])
   \<and> ds_queue_visualize as_int hq None out
       = Some (default_stdout out, ''Queue: NULL'' @ [newline])
   \<and> ds_tree_visualize as_int ht None out
       = Some (default_stdout out, ''Tree: NULL'' @ [newline])"
  by (simp add: ds_list_free_def ds_list_push_front_def ds_list_push_back_def
      ds_list_pop_front_def ds_list_remove_def ds_list_find_def ds_list_size_def
      ds_stack_free_def ds_stack_push_def ds_stack_pop_def ds_stack_peek_def
      ds_stack_is_empty_def ds_stack_size_def
      ds_queue_free_def ds_queue_enqueue_def ds_queue_dequeue_def ds_queue_peek_def
      ds_queue_is_empty_def ds_queue_size_def
      ds_tree_free_def ds_tree_insert_def ds_tree_find_def ds_tree_remove_def
      ds_tree_size_def ds_tree_is_empty_def ds_list_visualize_def ds_stack_visualize_def
      ds_queue_visualize_def ds_tree_visualize_def)

text \<open>
  Claim C9. \<^verbatim>\<open>ds_stack_is_empty\<close> and \<^verbatim>\<open>ds_tree_is_empty\<close> return 1 on a null
  handle; on a live handle whose top (root) pointer heads a chain (tree) of nodes they
  return 1 when that chain (tree) has no node and 0 otherwise. Both take the structure
  only and return an \<^verbatim>\<open>int\<close>: they have no store or structure to change.
\<close>

theorem is_empty_stack_and_tree:
  "ds_stack_is_empty None = 1
   \<and> ds_tree_is_empty None = 1
   \<and> (stack_at hs (s_top s) xs \<longrightarrow> ds_stack_is_empty (Some s) = (if xs = [] then 1 else 0))
   \<and> (tree_at ht (t_root t) tr \<longrightarrow> ds_tree_is_empty (Some t) = (if tr = Leaf then 1 else 0))"
proof (intro conjI impI)
  show "ds_stack_is_empty None = 1" by (simp add: ds_stack_is_empty_def)
  show "ds_tree_is_empty None = 1" by (simp add: ds_tree_is_empty_def)
next
  assume "stack_at hs (s_top s) xs"
  then show "ds_stack_is_empty (Some s) = (if xs = [] then 1 else 0)"
    by (cases xs) (auto simp: ds_stack_is_empty_def)
next
  assume "tree_at ht (t_root t) tr"
  then show "ds_tree_is_empty (Some t) = (if tr = Leaf then 1 else 0)"
    by (cases tr) (auto simp: ds_tree_is_empty_def)
qed

theorem is_empty_stack_and_tree_witness:
  "stack_at [(1::addr) \<mapsto> \<lparr>sn_data = Some (5::int), sn_next = None\<rparr>]
       (s_top \<lparr>s_top = Some 1, s_size = 1\<rparr>) [(1, 5)]
   \<and> ds_stack_is_empty (Some \<lparr>s_top = Some 1, s_size = 1\<rparr>) = 0
   \<and> tree_at (Map.empty :: int tree_store) (t_root \<lparr>t_root = None, t_size = 0\<rparr>) Leaf
   \<and> ds_tree_is_empty (Some \<lparr>t_root = None, t_size = 0\<rparr>) = 1"
proof -
  have s: "stack_at [(1::addr) \<mapsto> \<lparr>sn_data = Some (5::int), sn_next = None\<rparr>]
       (s_top \<lparr>s_top = Some 1, s_size = 1\<rparr>) [(1, 5)]"
    by simp
  have t: "tree_at (Map.empty :: int tree_store) (t_root \<lparr>t_root = None, t_size = 0\<rparr>) Leaf"
    by simp
  note inst = is_empty_stack_and_tree
    [where hs = "[(1::addr) \<mapsto> \<lparr>sn_data = Some (5::int), sn_next = None\<rparr>]"
       and s = "\<lparr>s_top = Some 1, s_size = 1\<rparr>" and xs = "[(1, 5)]"
       and ht = "Map.empty :: int tree_store" and t = "\<lparr>t_root = None, t_size = 0\<rparr>"
       and tr = Leaf]
  from inst s have "ds_stack_is_empty (Some \<lparr>s_top = Some 1, s_size = 1\<rparr>) = 0" by simp
  moreover from inst t have "ds_tree_is_empty (Some \<lparr>t_root = None, t_size = 0\<rparr>) = 1" by simp
  ultimately show ?thesis using s t by blast
qed

text \<open>
  Claim C4. For the operations that take a comparator, an absent comparator is reported
  exactly as an absent handle or an absent payload is: \<^verbatim>\<open>ds_list_remove\<close>,
  \<^verbatim>\<open>ds_tree_insert\<close> and \<^verbatim>\<open>ds_tree_remove\<close> return \<^verbatim>\<open>DS_ERR_NULLARG\<close> and
  leave the container alone, \<^verbatim>\<open>ds_list_find\<close> and \<^verbatim>\<open>ds_tree_find\<close> return
  \<^verbatim>\<open>NULL\<close>.
\<close>

theorem absent_argument_is_nullarg:
  "(L = None \<or> data = None \<or> cmp = None \<longrightarrow>
      ds_list_remove hl L data cmp = Some (DS_ERR_NULLARG, hl, L)
      \<and> ds_list_find hl L data cmp = Some None)
   \<and> (T = None \<or> data = None \<or> cmp = None \<longrightarrow>
      ds_tree_insert new ht T data cmp = Some (DS_ERR_NULLARG, ht, T)
      \<and> ds_tree_remove ht T data cmp = Some (DS_ERR_NULLARG, ht, T)
      \<and> ds_tree_find ht T data cmp = Some None)"
  by (auto simp: ds_list_remove_def ds_list_find_def ds_tree_insert_def ds_tree_remove_def
      ds_tree_find_def split: option.splits)

theorem absent_argument_is_nullarg_witness:
  "ds_list_remove Map.empty (Some \<lparr>l_head = None, l_tail = None, l_size = 0\<rparr>) (Some (5::int)) None
     = Some (DS_ERR_NULLARG, Map.empty, Some \<lparr>l_head = None, l_tail = None, l_size = 0\<rparr>)
   \<and> ds_list_find Map.empty (Some \<lparr>l_head = None, l_tail = None, l_size = 0\<rparr>) (Some (5::int)) None
     = Some None
   \<and> ds_tree_insert (Some 1) Map.empty (Some \<lparr>t_root = None, t_size = 0\<rparr>) (Some (5::int)) None
     = Some (DS_ERR_NULLARG, Map.empty, Some \<lparr>t_root = None, t_size = 0\<rparr>)
   \<and> ds_tree_remove Map.empty (Some \<lparr>t_root = None, t_size = 0\<rparr>) (Some (5::int)) None
     = Some (DS_ERR_NULLARG, Map.empty, Some \<lparr>t_root = None, t_size = 0\<rparr>)
   \<and> ds_tree_find Map.empty (Some \<lparr>t_root = None, t_size = 0\<rparr>) (Some (5::int)) None
     = Some None"
  using absent_argument_is_nullarg
    [where cmp = None and data = "Some (5::int)" and hl = Map.empty and ht = Map.empty
       and L = "Some \<lparr>l_head = None, l_tail = None, l_size = 0\<rparr>"
       and T = "Some \<lparr>t_root = None, t_size = 0\<rparr>" and new = "Some 1"]
  by simp

text \<open>
  With a live container, a payload and a null comparator, the three status-returning
  operations return \<^verbatim>\<open>DS_ERR_NULLARG\<close>, which is not \<^verbatim>\<open>DS_ERR_INVALID\<close>.
\<close>

theorem absent_comparator_not_invalid:
  "ds_list_remove Map.empty (Some \<lparr>l_head = None, l_tail = None, l_size = 0\<rparr>) (Some (5::int)) None
     = Some (DS_ERR_NULLARG, Map.empty, Some \<lparr>l_head = None, l_tail = None, l_size = 0\<rparr>)
   \<and> ds_tree_insert (Some 1) Map.empty (Some \<lparr>t_root = None, t_size = 0\<rparr>) (Some (5::int)) None
     = Some (DS_ERR_NULLARG, Map.empty, Some \<lparr>t_root = None, t_size = 0\<rparr>)
   \<and> ds_tree_remove Map.empty (Some \<lparr>t_root = None, t_size = 0\<rparr>) (Some (5::int)) None
     = Some (DS_ERR_NULLARG, Map.empty, Some \<lparr>t_root = None, t_size = 0\<rparr>)
   \<and> DS_ERR_NULLARG \<noteq> DS_ERR_INVALID"
  by (simp add: ds_list_remove_def ds_tree_insert_def ds_tree_remove_def)

end
